theory Spec2Isabelle
  imports Main "HOL-Library.Product_Lexorder"
begin

section \<open>The worker's world: strings, clock, key-value namespace\<close>

text \<open>
  The program is the Cloudflare worker \<^verbatim>\<open>src/_worker.js\<close>; the repository also
  holds two shorter versions of it, which differ in details (no bounds on the expiry in
  days, a looser validator, no guard on an empty address list) and are not modelled.
  JavaScript strings are
  modelled as \<^typ>\<open>string\<close>, one \<^typ>\<open>char\<close> per code unit (code units below 256);
  \<^verbatim>\<open>null\<close> and \<^verbatim>\<open>undefined\<close> are \<^term>\<open>None\<close>. Timestamps are epoch
  milliseconds (\<^typ>\<open>int\<close>): an ISO-8601 text written by \<^verbatim>\<open>toISOString\<close> and read
  back by \<^verbatim>\<open>new Date(...)\<close> is kept as the number it denotes.
\<close>

datatype exn = StoreError | TypeError | RangeError | SyntaxError

text \<open>\<^verbatim>\<open>s.startsWith(p)\<close> and the truthiness of a string-or-null value.\<close>

definition startsWith :: "string \<Rightarrow> string \<Rightarrow> bool" where
  "startsWith s p = (take (length p) s = p)"

definition truthy :: "string option \<Rightarrow> bool" where
  "truthy v = (case v of None \<Rightarrow> False | Some s \<Rightarrow> s \<noteq> [])"

text \<open>
  \<^verbatim>\<open>String.prototype.trim\<close>: white space and line terminators are removed from both
  ends. Among the code units below 256 these are TAB, LF, VT, FF, CR, SPACE and NBSP.
\<close>

definition isWhiteSpace :: "char \<Rightarrow> bool" where
  "isWhiteSpace c = (of_char c \<in> {9, 10, 11, 12, 13, 32, 160 :: nat})"

definition trim :: "string \<Rightarrow> string" where
  "trim s = rev (dropWhile isWhiteSpace (rev (dropWhile isWhiteSpace s)))"

text \<open>
  The TokenConfig object stored under the key \<^verbatim>\<open>token_config\<close>. The field
  \<open>neverExpire\<close> holds the truthiness of the JavaScript field (absent counts as false,
  as \<^verbatim>\<open>!tokenConfig.neverExpire\<close> reads it).
\<close>

record TokenConfig =
  token :: string
  expires :: int
  createdAt :: int
  lastUsed :: "int option"
  neverExpire :: bool

text \<open>One measured address of the fast list, and the two stored lists.\<close>

record LatencyResult =
  ip :: string
  latency :: int

datatype status = success | error

text \<open>Why a fetch of a source rejected: the message of the report, by meaning.\<close>

datatype fetch_error = HTTPError nat | NetworkFailure | Aborted

record SourceReport =
  name :: string
  status :: status
  count :: nat
  error_detail :: "fetch_error option"

record AddressSet =
  ips :: "string list"
  lastUpdated :: int
  ips_count :: nat
  sources :: "SourceReport list"

record FastSet =
  fastIPs :: "LatencyResult list"
  lastTested :: int
  fast_count :: nat
  testedCount :: nat
  totalIPs :: nat

text \<open>
  The KV namespace \<^verbatim>\<open>env.IP_STORAGE\<close>. The worker uses four families of keys, which
  cannot collide: \<^verbatim>\<open>token_config\<close>, \<^verbatim>\<open>cloudflare_ips\<close>,
  \<^verbatim>\<open>cloudflare_fast_ips\<close> and \<^verbatim>\<open>session_ID\<close>. Each of the first three is
  written with \<^verbatim>\<open>JSON.stringify\<close> and read back with \<^verbatim>\<open>JSON.parse\<close> by the
  worker alone; the model keeps the object. A session record is only tested for
  truthiness, so its text is kept; an entry whose TTL has run out is absent.
\<close>

record kv_store =
  token_config :: "TokenConfig option"
  cloudflare_ips :: "AddressSet option"
  cloudflare_fast_ips :: "FastSet option"
  sessions :: "string \<Rightarrow> string option"

text \<open>
  The world a handler runs in: the two bindings of \<^verbatim>\<open>env\<close>, and what the runtime
  decides: for each coming operation on the namespace whether it throws (\<open>faults\<close>,
  consumed one flag per operation; no flag left means no failure), and the clock
  (\<open>clock n\<close> is what the \<open>n\<close>-th reading of \<^verbatim>\<open>Date.now()\<close> or
  \<^verbatim>\<open>new Date()\<close> returns, \<open>ticks\<close> counts the readings made).
\<close>

record world =
  ADMIN_PASSWORD :: "string option"
  IP_STORAGE :: "kv_store option"
  faults :: "bool list"
  clock :: "nat \<Rightarrow> int"
  ticks :: nat

type_synonym 'a io = "world \<Rightarrow> (exn + 'a) \<times> world"

definition return_io :: "'a \<Rightarrow> 'a io" where
  "return_io a = (\<lambda>w. (Inr a, w))"

definition throw_io :: "exn \<Rightarrow> 'a io" where
  "throw_io e = (\<lambda>w. (Inl e, w))"

definition bind_io :: "'a io \<Rightarrow> ('a \<Rightarrow> 'b io) \<Rightarrow> 'b io" where
  "bind_io m f = (\<lambda>w. case m w of (Inl e, w') \<Rightarrow> (Inl e, w') | (Inr a, w') \<Rightarrow> f a w')"

text \<open>\<^verbatim>\<open>try { m } catch (error) { h }\<close>\<close>

definition catch_io :: "'a io \<Rightarrow> (exn \<Rightarrow> 'a io) \<Rightarrow> 'a io" where
  "catch_io m h = (\<lambda>w. case m w of (Inl e, w') \<Rightarrow> h e w' | (Inr a, w') \<Rightarrow> (Inr a, w'))"

definition now_io :: "int io" where
  "now_io = (\<lambda>w. (Inr (clock w (ticks w)), w\<lparr>ticks := Suc (ticks w)\<rparr>))"

text \<open>
  \<^verbatim>\<open>new Date(t).toISOString()\<close> throws a RangeError when \<open>t\<close> is not a valid time
  value (beyond 8.64e15 milliseconds from the epoch).
\<close>

definition toISOString :: "int \<Rightarrow> int io" where
  "toISOString t = (if \<bar>t\<bar> \<le> 8640000000000000 then return_io t else throw_io RangeError)"

text \<open>
  One operation on the namespace. On an unbound namespace the property access throws a
  TypeError; otherwise the runtime's next fault flag decides whether the operation
  throws. An operation that throws leaves the namespace as it was.
\<close>

definition next_fault :: "world \<Rightarrow> bool" where
  "next_fault w = (case faults w of [] \<Rightarrow> False | b # _ \<Rightarrow> b)"

definition kv_op :: "(kv_store \<Rightarrow> 'a \<times> kv_store) \<Rightarrow> 'a io" where
  "kv_op f = (\<lambda>w. case IP_STORAGE w of
       None \<Rightarrow> (Inl TypeError, w)
     | Some st \<Rightarrow>
         if next_fault w then (Inl StoreError, w\<lparr>faults := tl (faults w)\<rparr>)
         else (case f st of (a, st') \<Rightarrow>
                 (Inr a, w\<lparr>IP_STORAGE := Some st', faults := tl (faults w)\<rparr>)))"

definition get_session :: "string \<Rightarrow> string option io" where
  "get_session sessionId = kv_op (\<lambda>st. (sessions st sessionId, st))"

definition get_token_config :: "TokenConfig option io" where
  "get_token_config = kv_op (\<lambda>st. (token_config st, st))"

definition put_token_config :: "TokenConfig \<Rightarrow> unit io" where
  "put_token_config tc = kv_op (\<lambda>st. ((), st\<lparr>token_config := Some tc\<rparr>))"

definition put_fast_ips :: "FastSet \<Rightarrow> unit io" where
  "put_fast_ips fs = kv_op (\<lambda>st. ((), st\<lparr>cloudflare_fast_ips := Some fs\<rparr>))"

section \<open>Requests and responses\<close>

text \<open>
  What the handlers read of a request: the method, the path of the URL, the \<^verbatim>\<open>Authorization\<close> header, the
  query parameters \<^verbatim>\<open>session\<close> and \<^verbatim>\<open>token\<close>
  (\<^verbatim>\<open>url.searchParams.get\<close>), and the outcome of \<^verbatim>\<open>request.json()\<close>, typed as the
  admin page submits it: \<open>token\<close> a string, \<open>expiresDays\<close> a whole number or null,
  \<open>neverExpire\<close> a boolean.
\<close>

record TokenForm =
  form_token :: "string option"
  form_expiresDays :: "int option"
  form_neverExpire :: bool

record Request =
  http_method :: string
  pathname :: string
  authorization :: "string option"
  param_session :: "string option"
  param_token :: "string option"
  json :: "exn + TokenForm"

text \<open>The messages of the JSON error bodies, by meaning.\<close>

datatype message =
    NeedAdmin
  | TokenEmpty
  | ExpiryEmpty
  | ExpiryOutOfRange
  | MethodNotAllowed
  | KVNotBound
  | Thrown exn

datatype body =
    ErrorBody message
  | TokenBody "TokenConfig option"
  | TokenUpdated TokenConfig
  | StatusBody bool bool "TokenConfig option"
  | NoBody

record Response =
  status_code :: nat
  payload :: body

definition jsonResponse :: "body \<Rightarrow> nat \<Rightarrow> Response" where
  "jsonResponse data st = \<lparr>status_code = st, payload = data\<rparr>"

definition handleCORS :: Response where
  "handleCORS = \<lparr>status_code = 200, payload = NoBody\<rparr>"

section \<open>AuthGate\<close>

text \<open>\<^verbatim>\<open>getTokenConfig\<close>: any failure of the read is swallowed and gives null.\<close>

definition getTokenConfig :: "TokenConfig option io" where
  "getTokenConfig = catch_io get_token_config (\<lambda>e. return_io None)"

definition has_admin_password :: "world \<Rightarrow> bool" where
  "has_admin_password w = truthy (ADMIN_PASSWORD w)"

text \<open>
  The body of the \<^verbatim>\<open>try\<close> block of \<^verbatim>\<open>verifyAdmin\<close>, in the order of the source:
  the session of a \<^verbatim>\<open>Bearer\<close> header, the session of the query string, then the
  token: the expiry test first, then the token of the query string, then the token of
  a \<^verbatim>\<open>Token\<close> header.
\<close>

definition use_token :: "TokenConfig \<Rightarrow> bool io" where
  "use_token tokenConfig =
     bind_io now_io (\<lambda>t.
     bind_io (toISOString t) (\<lambda>iso.
     bind_io (put_token_config (tokenConfig\<lparr>lastUsed := Some iso\<rparr>)) (\<lambda>_.
     return_io True)))"

definition token_expired :: "TokenConfig \<Rightarrow> bool io" where
  "token_expired tokenConfig =
     (if neverExpire tokenConfig then return_io False
      else bind_io now_io (\<lambda>t. return_io (expires tokenConfig < t)))"

definition header_token :: "Request \<Rightarrow> string option" where
  "header_token request =
     (case authorization request of
        None \<Rightarrow> None
      | Some authHeader \<Rightarrow>
          if startsWith authHeader ''Token '' then Some (drop 6 authHeader) else None)"

definition check_token_config :: "Request \<Rightarrow> TokenConfig \<Rightarrow> bool io" where
  "check_token_config request tokenConfig =
     bind_io (token_expired tokenConfig) (\<lambda>expired.
     if expired then return_io False
     else if param_token request = Some (token tokenConfig) then use_token tokenConfig
     else if header_token request = Some (token tokenConfig) then use_token tokenConfig
     else return_io False)"

definition check_token :: "Request \<Rightarrow> bool io" where
  "check_token request =
     bind_io getTokenConfig (\<lambda>tokenConfig.
       case tokenConfig of
         None \<Rightarrow> return_io False
       | Some tc \<Rightarrow> check_token_config request tc)"

definition check_url_session :: "Request \<Rightarrow> bool io" where
  "check_url_session request =
     (if truthy (param_session request)
      then bind_io (get_session (the (param_session request))) (\<lambda>session. return_io (truthy session))
      else return_io False)"

definition bearer_session :: "Request \<Rightarrow> string option" where
  "bearer_session request =
     (case authorization request of
        None \<Rightarrow> None
      | Some authHeader \<Rightarrow>
          if startsWith authHeader ''Bearer '' then Some (drop 7 authHeader) else None)"

definition check_bearer_session :: "Request \<Rightarrow> bool io" where
  "check_bearer_session request =
     (case bearer_session request of
        None \<Rightarrow> return_io False
      | Some sessionId \<Rightarrow>
          bind_io (get_session sessionId) (\<lambda>session. return_io (truthy session)))"

definition verifyAdmin_try :: "Request \<Rightarrow> bool io" where
  "verifyAdmin_try request =
     bind_io (check_bearer_session request) (\<lambda>found.
     if found then return_io True
     else bind_io (check_url_session request) (\<lambda>found.
       if found then return_io True
       else check_token request))"

definition verifyAdmin :: "Request \<Rightarrow> bool io" where
  "verifyAdmin request =
     (\<lambda>w. if \<not> has_admin_password w then (Inr True, w)
          else catch_io (verifyAdmin_try request) (\<lambda>e. return_io False) w)"

text \<open>
  \<^verbatim>\<open>handleAdminToken\<close>. The body of the \<^verbatim>\<open>try\<close> block of the POST branch first:
  \<^verbatim>\<open>request.json()\<close> may throw; a falsy token is refused; the expiry is a hundred
  years ahead for \<open>neverExpire\<close>, and otherwise \<open>expiresDays\<close> must be truthy (not
  null, not 0) and between 1 and 365; the new object is built from the trimmed token
  and written.
\<close>

definition store_token :: "TokenForm \<Rightarrow> int \<Rightarrow> Response io" where
  "store_token form expiresDate =
     bind_io now_io (\<lambda>t.
     bind_io (toISOString t) (\<lambda>created.
       let tokenConfig = \<lparr>token = trim (the (form_token form)), expires = expiresDate,
                          createdAt = created, lastUsed = None,
                          neverExpire = form_neverExpire form\<rparr>
       in bind_io (put_token_config tokenConfig) (\<lambda>_.
          return_io (jsonResponse (TokenUpdated tokenConfig) 200))))"

definition handleAdminToken_post :: "Request \<Rightarrow> Response io" where
  "handleAdminToken_post request =
     (case json request of
        Inl e \<Rightarrow> throw_io e
      | Inr form \<Rightarrow>
          if \<not> truthy (form_token form) then return_io (jsonResponse (ErrorBody TokenEmpty) 400)
          else if form_neverExpire form then
            bind_io now_io (\<lambda>t.
            bind_io (toISOString (t + 100 * 365 * 24 * 60 * 60 * 1000)) (\<lambda>expiresDate.
            store_token form expiresDate))
          else (case form_expiresDays form of
                  None \<Rightarrow> return_io (jsonResponse (ErrorBody ExpiryEmpty) 400)
                | Some expiresDays \<Rightarrow>
                    if expiresDays = 0 then return_io (jsonResponse (ErrorBody ExpiryEmpty) 400)
                    else if expiresDays < 1 \<or> expiresDays > 365
                    then return_io (jsonResponse (ErrorBody ExpiryOutOfRange) 400)
                    else
                      bind_io now_io (\<lambda>t.
                      bind_io (toISOString (t + expiresDays * 24 * 60 * 60 * 1000)) (\<lambda>expiresDate.
                      store_token form expiresDate))))"

definition handleAdminToken :: "Request \<Rightarrow> Response io" where
  "handleAdminToken request =
     bind_io (verifyAdmin request) (\<lambda>ok.
     if \<not> ok then return_io (jsonResponse (ErrorBody NeedAdmin) 401)
     else if http_method request = ''GET'' then
       bind_io getTokenConfig (\<lambda>tokenConfig.
       return_io (jsonResponse (TokenBody tokenConfig) 200))
     else if http_method request = ''POST'' then
       catch_io (handleAdminToken_post request)
         (\<lambda>e. return_io (jsonResponse (ErrorBody (Thrown e)) 500))
     else return_io (jsonResponse (ErrorBody MethodNotAllowed) 405))"

text \<open>\<^verbatim>\<open>handleAdminStatus(env)\<close>: it is not given the request.\<close>

definition handleAdminStatus :: "Response io" where
  "handleAdminStatus =
     catch_io
       (bind_io getTokenConfig (\<lambda>tokenConfig. (\<lambda>w.
          return_io (jsonResponse
            (StatusBody (has_admin_password w) (tokenConfig \<noteq> None) tokenConfig) 200) w)))
       (\<lambda>e. return_io (jsonResponse (ErrorBody (Thrown e)) 500))"

text \<open>
  The entry point \<^verbatim>\<open>fetch\<close>: the binding check, the OPTIONS shortcut, then the switch
  on the path inside the outer \<^verbatim>\<open>try\<close>. The two admin routes the properties below
  are about are modelled; the handlers of the other paths are the parameter \<open>rest\<close>.
\<close>

definition fetch :: "(string \<Rightarrow> Request \<Rightarrow> Response io) \<Rightarrow> Request \<Rightarrow> Response io" where
  "fetch rest request =
     (\<lambda>w. if IP_STORAGE w = None then (Inr \<lparr>status_code = 500, payload = ErrorBody KVNotBound\<rparr>, w)
          else if http_method request = ''OPTIONS'' then (Inr handleCORS, w)
          else catch_io
                 (if pathname request = ''/admin-status'' then handleAdminStatus
                  else if pathname request = ''/admin-token'' then handleAdminToken request
                  else rest (pathname request) request)
                 (\<lambda>e. return_io (jsonResponse (ErrorBody (Thrown e)) 500)) w)"

section \<open>AddressValidator\<close>

text \<open>\<^verbatim>\<open>s.split('.')\<close>: the groups between the dots; the empty string has one empty group.\<close>

fun split_dot :: "string \<Rightarrow> string list" where
  "split_dot [] = [[]]"
| "split_dot (c # cs) =
     (if c = CHR ''.'' then [] # split_dot cs
      else (case split_dot cs of g # gs \<Rightarrow> (c # g) # gs | [] \<Rightarrow> [[c]]))"

text \<open>
  \<^verbatim>\<open>parseInt(string, radix)\<close> after ECMAScript: leading white space is skipped, a sign
  is read, with no radix (or radix 16) a prefix \<^verbatim>\<open>0x\<close> selects base 16, then the
  longest prefix of digits of the base is the value; no digit at all gives NaN
  (\<^term>\<open>None\<close>). The value is kept exact; the worker only compares it with 0, 16, 31
  and 255 and subtracts values below 256, where the floating-point result is the same.
\<close>

definition radix_val :: "char \<Rightarrow> nat" where
  "radix_val c =
     (let n = (of_char c :: nat) in
      if 48 \<le> n \<and> n \<le> 57 then n - 48
      else if 97 \<le> n \<and> n \<le> 122 then n - 87
      else if 65 \<le> n \<and> n \<le> 90 then n - 55
      else 36)"

definition parseInt :: "nat option \<Rightarrow> string \<Rightarrow> int option" where
  "parseInt radix str =
     (let s = dropWhile isWhiteSpace str;
          neg = (s \<noteq> [] \<and> hd s = CHR ''-'');
          s1 = (if s \<noteq> [] \<and> (hd s = CHR ''+'' \<or> hd s = CHR ''-'') then tl s else s);
          given = (case radix of None \<Rightarrow> 0 | Some r \<Rightarrow> r);
          hex = ((given = 0 \<or> given = 16) \<and> (startsWith s1 ''0x'' \<or> startsWith s1 ''0X''));
          R = (if hex then 16 else if given = 0 then 10 else given);
          s2 = (if hex then drop 2 s1 else s1);
          ds = takeWhile (\<lambda>c. radix_val c < R) s2
      in if given \<noteq> 0 \<and> (given < 2 \<or> 36 < given) then None
         else if ds = [] then None
         else Some ((if neg then - 1 else 1) * int (foldl (\<lambda>n c. R * n + radix_val c) 0 ds)))"

text \<open>
  \<^verbatim>\<open>isValidIPv4\<close>. The loop over the parts returns false at the first part that
  \<^verbatim>\<open>parseInt(part, 10)\<close> does not read as a number from 0 to 255, or that starts with
  \<^verbatim>\<open>0\<close> and is longer than one character.
\<close>

definition part_ok :: "string \<Rightarrow> bool" where
  "part_ok part =
     (case parseInt (Some 10) part of
        None \<Rightarrow> False
      | Some num \<Rightarrow> \<not> (num < 0 \<or> num > 255) \<and> \<not> (startsWith part ''0'' \<and> length part > 1))"

definition in_range_16_31 :: "string \<Rightarrow> bool" where
  "in_range_16_31 part =
     (case parseInt None part of None \<Rightarrow> False | Some n \<Rightarrow> n \<ge> 16 \<and> n \<le> 31)"

definition isValidIPv4 :: "string \<Rightarrow> bool" where
  "isValidIPv4 address =
     (let parts = split_dot address in
      if length parts \<noteq> 4 then False
      else if \<not> list_all part_ok parts then False
      else if startsWith address ''10.'' \<or> startsWith address ''192.168.''
              \<or> (startsWith address ''172.'' \<and> in_range_16_31 (parts ! 1))
              \<or> startsWith address ''127.'' \<or> startsWith address ''169.254.''
              \<or> address = ''255.255.255.255''
           then False
      else True)"

subsection \<open>The validator as the specification words it\<close>

text \<open>
  Exactly four dot-separated decimal groups; each group the decimal numeral of a number
  from 0 to 255, without a leading zero; not beginning with \<^verbatim>\<open>10.\<close>,
  \<^verbatim>\<open>192.168.\<close>, \<^verbatim>\<open>127.\<close> or \<^verbatim>\<open>169.254.\<close>; not
  \<^verbatim>\<open>255.255.255.255\<close>; not between 172.16.0.0 and 172.31.255.255.
\<close>

definition isDigit :: "char \<Rightarrow> bool" where
  "isDigit c = (48 \<le> (of_char c :: nat) \<and> (of_char c :: nat) \<le> 57)"

definition group_value :: "string \<Rightarrow> nat" where
  "group_value g = foldl (\<lambda>n c. 10 * n + (of_char c - 48)) 0 g"

definition decimal_group :: "string \<Rightarrow> bool" where
  "decimal_group g = (g \<noteq> [] \<and> list_all isDigit g)"

definition octet_group :: "string \<Rightarrow> bool" where
  "octet_group g = (decimal_group g \<and> group_value g \<le> 255 \<and> (g = ''0'' \<or> hd g \<noteq> CHR ''0''))"

definition isValid_spec :: "string \<Rightarrow> bool" where
  "isValid_spec s =
     (let gs = split_dot s in
      length gs = 4 \<and> list_all octet_group gs
      \<and> \<not> startsWith s ''10.'' \<and> \<not> startsWith s ''192.168.''
      \<and> \<not> startsWith s ''127.'' \<and> \<not> startsWith s ''169.254.''
      \<and> s \<noteq> ''255.255.255.255''
      \<and> \<not> (group_value (gs ! 0) = 172 \<and> 16 \<le> group_value (gs ! 1) \<and> group_value (gs ! 1) \<le> 31))"

definition digits_and_dots :: "string \<Rightarrow> bool" where
  "digits_and_dots s = list_all (\<lambda>c. isDigit c \<or> c = CHR ''.'') s"

section \<open>Harvester\<close>

text \<open>
  The pattern \<^verbatim>\<open>/\b(?:[0-9]{1,3}\.){3}[0-9]{1,3}\b/gi\<close>. A word character is a
  letter, a digit or the underscore; \<^verbatim>\<open>\b\<close> holds between two positions of which
  exactly one is a word character (the ends of the text count as non-word).
\<close>

definition isWordChar :: "char \<Rightarrow> bool" where
  "isWordChar c =
     (let n = (of_char c :: nat) in
      (48 \<le> n \<and> n \<le> 57) \<or> (65 \<le> n \<and> n \<le> 90) \<or> (97 \<le> n \<and> n \<le> 122) \<or> n = 95)"

definition boundary :: "char option \<Rightarrow> char option \<Rightarrow> bool" where
  "boundary prev nxt =
     ((case prev of None \<Rightarrow> False | Some c \<Rightarrow> isWordChar c)
      \<noteq> (case nxt of None \<Rightarrow> False | Some c \<Rightarrow> isWordChar c))"

text \<open>
  The greedy quantifier \<^verbatim>\<open>[0-9]{1,3}\<close> takes three digits if it can and gives them
  back one by one when what follows does not match: the lengths it tries, in order.
\<close>

definition digit_runs :: "string \<Rightarrow> nat list" where
  "digit_runs s = filter (\<lambda>n. n \<le> length (takeWhile isDigit (take 3 s))) [3, 2, 1]"

fun first_some :: "('a \<Rightarrow> 'b option) \<Rightarrow> 'a list \<Rightarrow> 'b option" where
  "first_some f [] = None"
| "first_some f (x # xs) = (case f x of Some y \<Rightarrow> Some y | None \<Rightarrow> first_some f xs)"

definition char_at :: "string \<Rightarrow> nat \<Rightarrow> char option" where
  "char_at s n = (if n < length s then Some (s ! n) else None)"

text \<open>
  \<open>match_groups k s\<close>: the length of the match of \<open>k\<close> dotted groups followed by the
  last group and the closing \<^verbatim>\<open>\b\<close> at the start of \<open>s\<close>, by backtracking.
\<close>

fun match_groups :: "nat \<Rightarrow> string \<Rightarrow> nat option" where
  "match_groups 0 s =
     first_some (\<lambda>n. if boundary (char_at s (n - 1)) (char_at s n) then Some n else None)
       (digit_runs s)"
| "match_groups (Suc k) s =
     first_some (\<lambda>n. if char_at s n = Some CHR ''.''
                      then map_option (\<lambda>m. n + 1 + m) (match_groups k (drop (n + 1) s))
                      else None)
       (digit_runs s)"

definition match_at :: "char option \<Rightarrow> string \<Rightarrow> nat option" where
  "match_at prev s = (if boundary prev (char_at s 0) then match_groups 3 s else None)"

text \<open>
  \<^verbatim>\<open>text.match(ipPattern) || []\<close>: all matches from left to right, each search
  starting where the last match ended. The scan carries the character before the
  current position and the number of characters of the last match still to skip.
\<close>

fun scan :: "char option \<Rightarrow> nat \<Rightarrow> string \<Rightarrow> string list" where
  "scan prev skip [] = []"
| "scan prev skip (c # cs) =
     (if skip > 0 then scan (Some c) (skip - 1) cs
      else (case match_at prev (c # cs) of
              Some n \<Rightarrow> take n (c # cs) # scan (Some c) (n - 1) cs
            | None \<Rightarrow> scan (Some c) 0 cs))"

definition match_all :: "string \<Rightarrow> string list" where
  "match_all text = scan None 0 text"

text \<open>
  The network as the harvester meets it: what the request to a source URL comes to.
  \<^verbatim>\<open>fetchURLWithTimeout\<close> resolves to the text of a 2xx response and rejects otherwise.
\<close>

datatype http_outcome = Answer nat string | NetworkDown | TimedOut

definition fetchURLWithTimeout :: "(string \<Rightarrow> http_outcome) \<Rightarrow> string \<Rightarrow> fetch_error + string" where
  "fetchURLWithTimeout net url =
     (case net url of
        Answer st text \<Rightarrow> if 200 \<le> st \<and> st \<le> 299 then Inr text else Inl (HTTPError st)
      | NetworkDown \<Rightarrow> Inl NetworkFailure
      | TimedOut \<Rightarrow> Inl Aborted)"

text \<open>
  \<^verbatim>\<open>getSourceName\<close>, for URLs of the shape \<^verbatim>\<open>https://host/path\<close> the worker lists:
  the host, followed by the path unless it is \<^verbatim>\<open>/\<close>; any other text is returned as
  it is.
\<close>

definition getSourceName :: "string \<Rightarrow> string" where
  "getSourceName url =
     (if startsWith url ''https://''
      then (let rest = drop 8 url;
                hostname = takeWhile (\<lambda>c. c \<noteq> CHR ''/'') rest;
                pathname = dropWhile (\<lambda>c. c \<noteq> CHR ''/'') rest
            in hostname @ (if pathname \<noteq> ''/'' \<and> pathname \<noteq> [] then pathname else []))
      else url)"

definition urls :: "string list" where
  "urls = [''https://ip.164746.xyz'',
           ''https://ip.haogege.xyz/'',
           ''https://stock.hostmonit.com/CloudFlareYes'',
           ''https://api.uouin.com/cloudflare.html'',
           ''https://addressesapi.090227.xyz/CloudFlareYes'',
           ''https://addressesapi.090227.xyz/ip.164746.xyz'',
           ''https://www.wetest.vip/page/cloudflare/address_v4.html'']"

text \<open>\<^verbatim>\<open>uniqueIPs.add(ip)\<close> on a Set, kept in insertion order.\<close>

definition set_add :: "string \<Rightarrow> string list \<Rightarrow> string list" where
  "set_add x xs = (if x \<in> set xs then xs else xs @ [x])"

record Harvest =
  uniqueIPs :: "string list"
  results :: "SourceReport list"

text \<open>What one settled promise of a batch adds to the set and to the report.\<close>

definition collect :: "Harvest \<Rightarrow> string \<times> (fetch_error + string) \<Rightarrow> Harvest" where
  "collect acc settled =
     (case settled of
        (url, Inr content) \<Rightarrow>
          (let ipMatches = match_all content in
           \<lparr>uniqueIPs = foldl (\<lambda>s m. if isValidIPv4 m then set_add m s else s) (uniqueIPs acc) ipMatches,
            results = results acc @ [\<lparr>name = getSourceName url, status = success,
                                       count = length ipMatches, error_detail = None\<rparr>]\<rparr>)
      | (url, Inl reason) \<Rightarrow>
          acc\<lparr>results := results acc @ [\<lparr>name = getSourceName url, status = error,
                                          count = 0, error_detail = Some reason\<rparr>]\<rparr>)"

text \<open>The loop over the batches of \<^verbatim>\<open>BATCH_SIZE = 3\<close> sources.\<close>

function harvest_batches ::
  "(string \<Rightarrow> http_outcome) \<Rightarrow> string list \<Rightarrow> nat \<Rightarrow> Harvest \<Rightarrow> Harvest" where
  "harvest_batches net us i acc =
     (if i < length us
      then (let batch = take 3 (drop i us);
                batchResults = map (fetchURLWithTimeout net) batch
            in harvest_batches net us (i + 3) (foldl collect acc (zip batch batchResults)))
      else acc)"
  by pat_completeness auto
termination
  by (relation "measure (\<lambda>(net, us, i, acc). length us - i)") auto

declare harvest_batches.simps [simp del]

text \<open>
  JavaScript numbers as the comparator meets them: a part that does not parse is NaN, a
  part beyond the end of the array is undefined. \<^verbatim>\<open>!==\<close> and \<^verbatim>\<open>-\<close> on them.
\<close>

datatype jsnum = Number int | NaN | Undefined

definition part_num :: "string list \<Rightarrow> nat \<Rightarrow> jsnum" where
  "part_num parts i =
     (if i < length parts
      then (case parseInt (Some 10) (parts ! i) of None \<Rightarrow> NaN | Some n \<Rightarrow> Number n)
      else Undefined)"

definition strict_neq :: "jsnum \<Rightarrow> jsnum \<Rightarrow> bool" where
  "strict_neq x y =
     (case (x, y) of
        (Number a, Number b) \<Rightarrow> a \<noteq> b
      | (Undefined, Undefined) \<Rightarrow> False
      | _ \<Rightarrow> True)"

definition minus_js :: "jsnum \<Rightarrow> jsnum \<Rightarrow> jsnum" where
  "minus_js x y = (case (x, y) of (Number a, Number b) \<Rightarrow> Number (a - b) | _ \<Rightarrow> NaN)"

fun compare_from :: "string list \<Rightarrow> string list \<Rightarrow> nat list \<Rightarrow> jsnum" where
  "compare_from aParts bParts [] = Number 0"
| "compare_from aParts bParts (i # rest) =
     (if strict_neq (part_num aParts i) (part_num bParts i)
      then minus_js (part_num aParts i) (part_num bParts i)
      else compare_from aParts bParts rest)"

definition compareIPs :: "string \<Rightarrow> string \<Rightarrow> jsnum" where
  "compareIPs a b = compare_from (split_dot a) (split_dot b) [0, 1, 2, 3]"

text \<open>
  \<^verbatim>\<open>Array.prototype.sort(comparefn)\<close>: a comparator result that is NaN counts as 0. The
  standard asks for a stable sort and leaves the algorithm open; the model is the
  stable insertion sort.
\<close>

definition sort_order :: "jsnum \<Rightarrow> int" where
  "sort_order v = (case v of Number n \<Rightarrow> n | _ \<Rightarrow> 0)"

fun js_insert :: "('a \<Rightarrow> 'a \<Rightarrow> jsnum) \<Rightarrow> 'a \<Rightarrow> 'a list \<Rightarrow> 'a list" where
  "js_insert cmp x [] = [x]"
| "js_insert cmp x (y # ys) =
     (if sort_order (cmp x y) \<le> 0 then x # y # ys else y # js_insert cmp x ys)"

definition js_sort :: "('a \<Rightarrow> 'a \<Rightarrow> jsnum) \<Rightarrow> 'a list \<Rightarrow> 'a list" where
  "js_sort cmp xs = foldr (js_insert cmp) xs []"

definition updateAllIPs_from :: "string list \<Rightarrow> (string \<Rightarrow> http_outcome) \<Rightarrow> Harvest" where
  "updateAllIPs_from us net =
     (let h = harvest_batches net us 0 \<lparr>uniqueIPs = [], results = []\<rparr>
      in \<lparr>uniqueIPs = js_sort compareIPs (uniqueIPs h), results = results h\<rparr>)"

definition updateAllIPs :: "(string \<Rightarrow> http_outcome) \<Rightarrow> Harvest" where
  "updateAllIPs net = updateAllIPs_from urls net"

section \<open>RankingEngine\<close>

definition FAST_IP_COUNT :: nat where
  "FAST_IP_COUNT = 25"

definition AUTO_TEST_MAX_IPS :: nat where
  "AUTO_TEST_MAX_IPS = 200"

text \<open>
  What a probe comes to: an answer with its HTTP status and the milliseconds measured
  between the two readings of the clock, or no answer (error, timeout).
  \<^verbatim>\<open>testIPSpeed\<close> never rejects: it resolves to
  \<^verbatim>\<open>{success: true, latency}\<close> or to \<^verbatim>\<open>{success: false, error}\<close>.
\<close>

datatype probe_outcome = Answered nat int | NoAnswer

datatype speedData = Success int | Failure

definition testIPSpeed :: "(nat \<Rightarrow> string \<Rightarrow> probe_outcome) \<Rightarrow> nat \<Rightarrow> string \<Rightarrow> speedData" where
  "testIPSpeed probe k address =
     (case probe k address of
        Answered st ms \<Rightarrow> if 200 \<le> st \<and> st \<le> 299 then Success ms else Failure
      | NoAnswer \<Rightarrow> Failure)"

text \<open>
  The push of one settled probe: \<^verbatim>\<open>speedData.success && speedData.latency\<close> holds for
  a success whose latency is not 0.
\<close>

definition keep_result :: "LatencyResult list \<Rightarrow> string \<times> speedData \<Rightarrow> LatencyResult list" where
  "keep_result speedResults settled =
     (case settled of
        (address, Success ms) \<Rightarrow>
          if ms \<noteq> 0 then speedResults @ [\<lparr>ip = address, latency = ms\<rparr>] else speedResults
      | (address, Failure) \<Rightarrow> speedResults)"

function speed_batches ::
  "(nat \<Rightarrow> string \<Rightarrow> probe_outcome) \<Rightarrow> string list \<Rightarrow> nat \<Rightarrow> LatencyResult list
     \<Rightarrow> LatencyResult list" where
  "speed_batches probe ipsToTest i speedResults =
     (if i < length ipsToTest
      then (let batch = take 5 (drop i ipsToTest);
                batchResults = map (\<lambda>(k, address). testIPSpeed probe k address)
                                 (zip [i..<i + length batch] batch)
            in speed_batches probe ipsToTest (i + 5)
                 (foldl keep_result speedResults (zip batch batchResults)))
      else speedResults)"
  by pat_completeness auto
termination
  by (relation "measure (\<lambda>(probe, ipsToTest, i, speedResults). length ipsToTest - i)") auto

declare speed_batches.simps [simp del]

definition compareLatency :: "LatencyResult \<Rightarrow> LatencyResult \<Rightarrow> jsnum" where
  "compareLatency a b = Number (latency a - latency b)"

text \<open>
  In \<^verbatim>\<open>await env.IP_STORAGE.put(key, JSON.stringify({...}))\<close> the member
  \<^verbatim>\<open>env.IP_STORAGE.put\<close> is evaluated before the argument: on an unbound namespace the
  TypeError is thrown before \<^verbatim>\<open>new Date()\<close> reads the clock.
\<close>

definition require_bound :: "unit io" where
  "require_bound = (\<lambda>w. if IP_STORAGE w = None then (Inl TypeError, w) else (Inr (), w))"

definition autoSpeedTestAndStore ::
  "(nat \<Rightarrow> string \<Rightarrow> probe_outcome) \<Rightarrow> string list \<Rightarrow> unit io" where
  "autoSpeedTestAndStore probe addresses =
     (if addresses = [] then return_io ()
      else (let ipsToTest = take AUTO_TEST_MAX_IPS addresses;
                speedResults = js_sort compareLatency (speed_batches probe ipsToTest 0 []);
                fast = take FAST_IP_COUNT speedResults
            in bind_io require_bound (\<lambda>_.
               bind_io now_io (\<lambda>t.
               bind_io (toISOString t) (\<lambda>iso.
               put_fast_ips \<lparr>fastIPs = fast, lastTested = iso, fast_count = length fast,
                              testedCount = length speedResults,
                              totalIPs = length addresses\<rparr>)))))"

section \<open>Vocabulary of the properties\<close>

text \<open>
  A request presents a valid session when the session of its \<^verbatim>\<open>Bearer\<close> header or of
  its query string is found in the namespace; it presents the token when the query
  parameter or the \<^verbatim>\<open>Token\<close> header equals the stored token.
\<close>

definition presents_valid_session :: "Request \<Rightarrow> kv_store \<Rightarrow> bool" where
  "presents_valid_session request st =
     ((case bearer_session request of
         None \<Rightarrow> False
       | Some sessionId \<Rightarrow> truthy (sessions st sessionId))
      \<or> (truthy (param_session request) \<and> truthy (sessions st (the (param_session request)))))"

definition presents_token :: "Request \<Rightarrow> TokenConfig \<Rightarrow> bool" where
  "presents_token request tc =
     (param_token request = Some (token tc) \<or> header_token request = Some (token tc))"

text \<open>
  The number of session lookups \<^verbatim>\<open>verifyAdmin\<close> makes before it reads the token
  configuration (when none of them authorizes), whether the \<open>n\<close>-th coming operation on
  the namespace throws, and whether an operation threw between two worlds.
\<close>

definition session_reads :: "Request \<Rightarrow> nat" where
  "session_reads request =
     (case bearer_session request of None \<Rightarrow> 0 | Some sessionId \<Rightarrow> 1)
     + (if truthy (param_session request) then 1 else 0)"

definition fault_at :: "world \<Rightarrow> nat \<Rightarrow> bool" where
  "fault_at w n = (n < length (faults w) \<and> faults w ! n)"

definition store_raised :: "world \<Rightarrow> world \<Rightarrow> bool" where
  "store_raised w w' =
     (IP_STORAGE w = None
      \<or> True \<in> set (take (length (faults w) - length (faults w')) (faults w)))"

definition quiet :: "world \<Rightarrow> world \<Rightarrow> bool" where
  "quiet w w' = (\<exists>fs. faults w = fs @ faults w' \<and> True \<notin> set fs)"

definition same_env :: "world \<Rightarrow> world \<Rightarrow> bool" where
  "same_env w w' = (IP_STORAGE w' = IP_STORAGE w \<and> ticks w' = ticks w \<and> clock w' = clock w
      \<and> ADMIN_PASSWORD w' = ADMIN_PASSWORD w)"

text \<open>
  The clock reading \<^verbatim>\<open>verifyAdmin\<close> records as \<open>lastUsed\<close>: the first one for a
  never-expiring token, the second one otherwise (the first is used by the expiry test).
\<close>

definition used_at :: "world \<Rightarrow> TokenConfig \<Rightarrow> int" where
  "used_at w tc = clock w (if neverExpire tc then ticks w else Suc (ticks w))"

subsection \<open>Concrete inputs\<close>

definition tc0 :: TokenConfig where
  "tc0 = \<lparr>token = ''tok'', expires = 5000, createdAt = 0, lastUsed = None, neverExpire = False\<rparr>"

definition store0 :: kv_store where
  "store0 = \<lparr>token_config = Some tc0, cloudflare_ips = None, cloudflare_fast_ips = None,
             sessions = (\<lambda>k. if k = ''s1'' then Some ''live'' else None)\<rparr>"

definition world0 :: "string option \<Rightarrow> bool list \<Rightarrow> int \<Rightarrow> world" where
  "world0 pw fs t = \<lparr>ADMIN_PASSWORD = pw, IP_STORAGE = Some store0, faults = fs,
                     clock = (\<lambda>n. t + int n), ticks = 0\<rparr>"

definition request0 :: "string \<Rightarrow> string option \<Rightarrow> string option \<Rightarrow> string option \<Rightarrow> Request" where
  "request0 m auth sess tok = \<lparr>http_method = m, pathname = ''/admin-status'', authorization = auth,
      param_session = sess, param_token = tok, json = Inl SyntaxError\<rparr>"

definition rotate0 :: "string \<Rightarrow> int \<Rightarrow> Request" where
  "rotate0 tok d = \<lparr>http_method = ''POST'', pathname = ''/admin-token'', authorization = Some ''Bearer s1'',
      param_session = None, param_token = None,
      json = Inr \<lparr>form_token = Some tok, form_expiresDays = Some d, form_neverExpire = False\<rparr>\<rparr>"

definition no_rest :: "string \<Rightarrow> Request \<Rightarrow> Response io" where
  "no_rest path request = throw_io TypeError"


subsection \<open>Vocabulary of the pipeline properties\<close>

text \<open>
  The numeric 4-tuple of an address: the decimal values of its four groups. Tuples are
  compared lexicographically (the order on products of \<^verbatim>\<open>HOL-Library.Product_Lexorder\<close>):
  first octet, then second, then third, then fourth, as numbers.
\<close>

definition quad :: "string \<Rightarrow> nat \<times> nat \<times> nat \<times> nat" where
  "quad s = (case map group_value (split_dot s) of
               [a, b, c, d] \<Rightarrow> (a, b, c, d)
             | _ \<Rightarrow> (0, 0, 0, 0))"

text \<open>The set of a harvest in the making: distinct valid addresses made of digits and dots.\<close>

definition good :: "string list \<Rightarrow> bool" where
  "good xs = (distinct xs \<and> (\<forall>a\<in>set xs. isValidIPv4 a \<and> digits_and_dots a))"

text \<open>
  A source with its settled fetch; whether the fetch of a source succeeds; the report
  the harvester records for a source.
\<close>

definition settled :: "(string \<Rightarrow> http_outcome) \<Rightarrow> string \<Rightarrow> string \<times> (fetch_error + string)" where
  "settled net url = (url, fetchURLWithTimeout net url)"

definition source_ok :: "(string \<Rightarrow> http_outcome) \<Rightarrow> string \<Rightarrow> bool" where
  "source_ok net url = (case fetchURLWithTimeout net url of Inl e \<Rightarrow> False | Inr text \<Rightarrow> True)"

definition report_of :: "(string \<Rightarrow> http_outcome) \<Rightarrow> string \<Rightarrow> SourceReport" where
  "report_of net url =
     (case fetchURLWithTimeout net url of
        Inr text \<Rightarrow> \<lparr>name = getSourceName url, status = success,
                     count = length (match_all text), error_detail = None\<rparr>
      | Inl e \<Rightarrow> \<lparr>name = getSourceName url, status = error, count = 0, error_detail = Some e\<rparr>)"

text \<open>
  A probe, numbered by the position of its address among the addresses tested, succeeds
  when it is answered with a 2xx status; the ranking keeps it when moreover the latency
  measured is not 0. \<open>successes\<close> counts the successful probes of a run, which tests
  the first \<open>AUTO_TEST_MAX_IPS\<close> addresses.
\<close>

definition probe_succeeds :: "(nat \<Rightarrow> string \<Rightarrow> probe_outcome) \<Rightarrow> nat \<times> string \<Rightarrow> bool" where
  "probe_succeeds probe ka =
     (case probe (fst ka) (snd ka) of
        Answered st ms \<Rightarrow> 200 \<le> st \<and> st \<le> 299
      | NoAnswer \<Rightarrow> False)"

definition counted :: "(nat \<Rightarrow> string \<Rightarrow> probe_outcome) \<Rightarrow> nat \<times> string \<Rightarrow> bool" where
  "counted probe ka =
     (case probe (fst ka) (snd ka) of
        Answered st ms \<Rightarrow> 200 \<le> st \<and> st \<le> 299 \<and> ms \<noteq> 0
      | NoAnswer \<Rightarrow> False)"

definition successes :: "(nat \<Rightarrow> string \<Rightarrow> probe_outcome) \<Rightarrow> string list \<Rightarrow> nat" where
  "successes probe addresses =
     length (filter (probe_succeeds probe) (enumerate 0 (take AUTO_TEST_MAX_IPS addresses)))"

definition settle :: "(nat \<Rightarrow> string \<Rightarrow> probe_outcome) \<Rightarrow> nat \<times> string \<Rightarrow> string \<times> speedData" where
  "settle probe ka = (snd ka, testIPSpeed probe (fst ka) (snd ka))"

definition stored_fast :: "world \<Rightarrow> FastSet option" where
  "stored_fast w = (case IP_STORAGE w of None \<Rightarrow> None | Some st \<Rightarrow> cloudflare_fast_ips st)"

subsection \<open>Concrete inputs of the pipeline\<close>

definition probe0 :: "nat \<Rightarrow> string \<Rightarrow> probe_outcome" where
  "probe0 k address =
     (if k = 0 then Answered 200 40 else if k = 2 then Answered 200 20 else NoAnswer)"

definition net0 :: "string \<Rightarrow> http_outcome" where
  "net0 url =
     (if url = ''https://ip.164746.xyz'' then Answer 200 ''10.0.0.1 1.1.1.1 1.1.1.1 2.2.2.2''
      else if url = ''https://ip.haogege.xyz/'' then TimedOut
      else Answer 200 ''none'')"

section \<open>Properties of the AuthGate\<close>

lemmas io_defs = return_io_def throw_io_def bind_io_def catch_io_def now_io_def kv_op_def
  get_session_def get_token_config_def put_token_config_def toISOString_def

lemmas ex_defs = tc0_def store0_def world0_def request0_def rotate0_def

lemmas eval_defs = verifyAdmin_def verifyAdmin_try_def check_bearer_session_def bearer_session_def
  check_url_session_def check_token_def check_token_config_def token_expired_def header_token_def
  use_token_def getTokenConfig_def has_admin_password_def truthy_def startsWith_def next_fault_def
  return_io_def throw_io_def bind_io_def catch_io_def now_io_def kv_op_def
  get_session_def get_token_config_def put_token_config_def toISOString_def

subsection \<open>Stepping through the monad\<close>

lemma bind_io_Inr:
  "bind_io m f w = (Inr v, w'') \<longleftrightarrow> (\<exists>a w'. m w = (Inr a, w') \<and> f a w' = (Inr v, w''))"
  by (auto simp: bind_io_def split: prod.splits sum.splits)

lemma return_io_eq: "return_io a w = (r, w') \<longleftrightarrow> r = Inr a \<and> w' = w"
  by (auto simp: return_io_def)

lemma now_io_eq:
  "now_io w = (r, w') \<longleftrightarrow> r = Inr (clock w (ticks w)) \<and> w' = w\<lparr>ticks := Suc (ticks w)\<rparr>"
  by (auto simp: now_io_def)

lemma toISOString_Inr: "toISOString t w = (Inr a, w') \<Longrightarrow> w' = w"
  by (auto simp: toISOString_def return_io_def throw_io_def split: if_splits)

lemma kv_op_ok:
  "IP_STORAGE w = Some st \<Longrightarrow> \<not> next_fault w \<Longrightarrow>
     kv_op f w = (Inr (fst (f st)), w\<lparr>IP_STORAGE := Some (snd (f st)), faults := tl (faults w)\<rparr>)"
  by (simp add: kv_op_def split: prod.splits)

lemma next_fault_drop: "faults w' = drop k (faults w) \<Longrightarrow> next_fault w' = fault_at w k"
proof (cases "k < length (faults w)")
  case True
  assume f: "faults w' = drop k (faults w)"
  from True have "drop k (faults w) = (faults w ! k) # drop (Suc k) (faults w)"
    by (simp add: Cons_nth_drop_Suc)
  with f True show ?thesis by (simp add: next_fault_def fault_at_def)
next
  case False
  assume f: "faults w' = drop k (faults w)"
  with False show ?thesis by (simp add: next_fault_def fault_at_def)
qed

subsection \<open>An authorization is reached without any failed operation\<close>

lemma quiet_refl: "faults w' = faults w \<Longrightarrow> quiet w w'"
  by (simp add: quiet_def)

lemma quiet_trans: "quiet w w' \<Longrightarrow> quiet w' w'' \<Longrightarrow> quiet w w''"
  by (auto simp: quiet_def)

lemma quiet_not_raised: "quiet w w' \<Longrightarrow> IP_STORAGE w \<noteq> None \<Longrightarrow> \<not> store_raised w w'"
  by (auto simp: quiet_def store_raised_def)

lemma kv_op_Inr:
  "kv_op f w = (Inr a, w') \<Longrightarrow> quiet w w' \<and> IP_STORAGE w \<noteq> None"
  by (auto simp: kv_op_def quiet_def next_fault_def intro: exI[of _ "[False]"] exI[of _ "[]"]
      split: option.splits list.splits if_splits prod.splits)

lemma check_bearer_session_quiet:
  "check_bearer_session request w = (Inr b, w') \<Longrightarrow> quiet w w'"
  by (auto simp: check_bearer_session_def get_session_def bind_io_Inr return_io_eq
      dest!: kv_op_Inr intro: quiet_refl split: option.splits)

lemma check_url_session_quiet:
  "check_url_session request w = (Inr b, w') \<Longrightarrow> quiet w w'"
  by (auto simp: check_url_session_def get_session_def bind_io_Inr return_io_eq
      dest!: kv_op_Inr intro: quiet_refl split: option.splits if_splits)

lemma use_token_quiet:
  "use_token tc w = (Inr b, w') \<Longrightarrow> quiet w w' \<and> IP_STORAGE w \<noteq> None"
  by (auto simp: use_token_def put_token_config_def bind_io_Inr return_io_eq now_io_eq quiet_def
      dest!: kv_op_Inr toISOString_Inr split: option.splits if_splits)

lemma getTokenConfig_Some:
  "getTokenConfig w = (Inr (Some tc), w') \<Longrightarrow> quiet w w' \<and> IP_STORAGE w \<noteq> None"
  by (auto simp: getTokenConfig_def get_token_config_def catch_io_def return_io_def
      dest!: kv_op_Inr split: prod.splits sum.splits)

lemma token_expired_eq:
  "token_expired tc w = (r, w') \<Longrightarrow>
     faults w' = faults w \<and> IP_STORAGE w' = IP_STORAGE w \<and> (\<exists>b. r = Inr b)"
  by (auto simp: token_expired_def bind_io_def return_io_def now_io_def split: if_splits)

lemma check_token_config_quiet:
  assumes "check_token_config request tc w = (Inr True, w')"
  shows "quiet w w' \<and> IP_STORAGE w \<noteq> None"
proof -
  from assms obtain e w2 where x: "token_expired tc w = (Inr e, w2)"
    and u: "use_token tc w2 = (Inr True, w')"
    by (auto simp: check_token_config_def bind_io_Inr return_io_eq split: if_splits)
  from x have f: "faults w2 = faults w" "IP_STORAGE w2 = IP_STORAGE w"
    using token_expired_eq by blast+
  from u have "quiet w2 w' \<and> IP_STORAGE w2 \<noteq> None" by (rule use_token_quiet)
  with f show ?thesis by (simp add: quiet_def)
qed

lemma check_token_quiet:
  assumes "check_token request w = (Inr True, w')"
  shows "quiet w w' \<and> IP_STORAGE w \<noteq> None"
proof -
  from assms obtain v w1 where g: "getTokenConfig w = (Inr v, w1)"
    and c: "(case v of None \<Rightarrow> return_io False | Some tc \<Rightarrow> check_token_config request tc) w1
              = (Inr True, w')"
    by (auto simp: check_token_def bind_io_Inr)
  from c obtain tc where v: "v = Some tc" and c': "check_token_config request tc w1 = (Inr True, w')"
    by (cases v) (auto simp: return_io_eq)
  from g v have q1: "quiet w w1" and b: "IP_STORAGE w \<noteq> None"
    using getTokenConfig_Some by blast+
  from c' have "quiet w1 w'" using check_token_config_quiet by blast
  with q1 b show ?thesis by (blast intro: quiet_trans)
qed

lemma verifyAdmin_try_quiet:
  assumes "verifyAdmin_try request w = (Inr True, w')"
  shows "quiet w w'"
  using assms
  by (auto simp: verifyAdmin_try_def bind_io_Inr return_io_eq
      dest!: check_bearer_session_quiet check_url_session_quiet check_token_quiet
      intro: quiet_trans split: if_splits)

lemma verifyAdmin_try_unbound:
  assumes "IP_STORAGE w = None"
  shows "fst (verifyAdmin_try request w) \<noteq> Inr True"
  using assms
  by (auto simp: verifyAdmin_try_def check_bearer_session_def check_url_session_def check_token_def
      getTokenConfig_def get_session_def get_token_config_def kv_op_def
      bind_io_def return_io_def catch_io_def
      split: option.splits if_splits)

lemma verifyAdmin_result:
  "has_admin_password w \<Longrightarrow>
     verifyAdmin request w =
       (case verifyAdmin_try request w of
          (Inl e, w') \<Rightarrow> (Inr False, w')
        | (Inr b, w') \<Rightarrow> (Inr b, w'))"
  by (auto simp: verifyAdmin_def catch_io_def return_io_def split: prod.splits sum.splits)

subsection \<open>The path of a request that presents the token and no valid session\<close>

lemma get_session_miss:
  assumes "IP_STORAGE w = Some st" "\<not> next_fault w" "\<not> truthy (sessions st k)"
  shows "\<exists>w1. bind_io (get_session k) (\<lambda>session. return_io (truthy session)) w = (Inr False, w1)
     \<and> same_env w w1 \<and> faults w1 = tl (faults w)"
  using assms by (simp add: get_session_def bind_io_def return_io_def kv_op_ok same_env_def)

lemma sessions_phase:
  assumes b: "IP_STORAGE w = Some st" and nv: "\<not> presents_valid_session request st"
    and nf: "\<forall>n<session_reads request. \<not> fault_at w n"
  shows "\<exists>w2. verifyAdmin_try request w = check_token request w2 \<and> same_env w w2
      \<and> faults w2 = drop (session_reads request) (faults w)"
proof -
  have s1: "\<exists>w1. check_bearer_session request w = (Inr False, w1) \<and> same_env w w1
      \<and> faults w1 = drop (case bearer_session request of None \<Rightarrow> 0 | Some x \<Rightarrow> 1) (faults w)"
  proof (cases "bearer_session request")
    case None
    then show ?thesis by (simp add: check_bearer_session_def return_io_def same_env_def)
  next
    case (Some k)
    with nf have "\<not> fault_at w 0" by (simp add: session_reads_def)
    then have "\<not> next_fault w" using next_fault_drop[of w 0 w] by simp
    moreover from nv Some have "\<not> truthy (sessions st k)" by (simp add: presents_valid_session_def)
    ultimately show ?thesis
      using get_session_miss[OF b, of k] Some by (auto simp: check_bearer_session_def drop_Suc)
  qed
  then obtain w1 where c1: "check_bearer_session request w = (Inr False, w1)" and e1: "same_env w w1"
    and f1: "faults w1 = drop (case bearer_session request of None \<Rightarrow> 0 | Some x \<Rightarrow> 1) (faults w)"
    by blast
  have b1: "IP_STORAGE w1 = Some st" using e1 b by (simp add: same_env_def)
  have s2: "\<exists>w2. check_url_session request w1 = (Inr False, w2) \<and> same_env w1 w2
      \<and> faults w2 = drop (session_reads request) (faults w)"
  proof (cases "truthy (param_session request)")
    case False
    then show ?thesis
      using f1 by (simp add: check_url_session_def return_io_def same_env_def session_reads_def)
  next
    case True
    let ?k = "case bearer_session request of None \<Rightarrow> 0 | Some x \<Rightarrow> (1::nat)"
    from True have "?k < session_reads request" by (simp add: session_reads_def)
    with nf have "\<not> fault_at w ?k" by blast
    then have "\<not> next_fault w1" using next_fault_drop[OF f1] by simp
    moreover from nv True have "\<not> truthy (sessions st (the (param_session request)))"
      by (simp add: presents_valid_session_def)
    moreover have "tl (faults w1) = drop (session_reads request) (faults w)"
      using f1 True by (simp add: session_reads_def drop_Suc tl_drop split: option.splits)
    ultimately show ?thesis
      using get_session_miss[OF b1, of "the (param_session request)"] True
      by (auto simp: check_url_session_def)
  qed
  then obtain w2 where c2: "check_url_session request w1 = (Inr False, w2)" and e2: "same_env w1 w2"
    and f2: "faults w2 = drop (session_reads request) (faults w)" by blast
  have "verifyAdmin_try request w = check_token request w2"
    using c1 c2 by (simp add: verifyAdmin_try_def bind_io_def)
  moreover have "same_env w w2" using e1 e2 by (simp add: same_env_def)
  ultimately show ?thesis using f2 by blast
qed

lemma token_phase:
  assumes b: "IP_STORAGE w2 = Some st" and cfg: "token_config st = Some tc"
    and nf: "\<not> next_fault w2" and pt: "presents_token request tc"
    and ne: "neverExpire tc \<or> \<not> expires tc < clock w2 (ticks w2)"
    and ok: "\<bar>used_at w2 tc\<bar> \<le> 8640000000000000"
  shows "fst (check_token request w2) =
           (if next_fault (w2\<lparr>faults := tl (faults w2)\<rparr>) then Inl StoreError else Inr True)
       \<and> IP_STORAGE (snd (check_token request w2)) =
           Some (if next_fault (w2\<lparr>faults := tl (faults w2)\<rparr>) then st
                 else st\<lparr>token_config := Some (tc\<lparr>lastUsed := Some (used_at w2 tc)\<rparr>)\<rparr>)"
proof -
  let ?w3 = "w2\<lparr>IP_STORAGE := Some st, faults := tl (faults w2)\<rparr>"
  have g: "getTokenConfig w2 = (Inr (Some tc), ?w3)"
    using b cfg nf by (simp add: getTokenConfig_def get_token_config_def catch_io_def kv_op_ok)
  have nx: "\<And>t. next_fault (?w3\<lparr>ticks := t\<rparr>) = next_fault (w2\<lparr>faults := tl (faults w2)\<rparr>)"
    by (simp add: next_fault_def)
  have u: "\<And>w4. IP_STORAGE w4 = Some st \<Longrightarrow> \<bar>clock w4 (ticks w4)\<bar> \<le> 8640000000000000 \<Longrightarrow>
      fst (use_token tc w4) = (if next_fault w4 then Inl StoreError else Inr True)
      \<and> IP_STORAGE (snd (use_token tc w4)) =
           Some (if next_fault w4 then st
                 else st\<lparr>token_config := Some (tc\<lparr>lastUsed := Some (clock w4 (ticks w4))\<rparr>)\<rparr>)"
    by (simp add: use_token_def bind_io_def now_io_def toISOString_def return_io_def
        put_token_config_def kv_op_def next_fault_def)
  have c: "check_token request w2 = check_token_config request tc ?w3"
    using g by (simp add: check_token_def bind_io_def)
  show ?thesis
  proof (cases "neverExpire tc")
    case True
    have "check_token_config request tc ?w3 = use_token tc ?w3"
      using True pt
      by (auto simp: check_token_config_def token_expired_def bind_io_def return_io_def
          presents_token_def)
    moreover have "\<bar>clock ?w3 (ticks ?w3)\<bar> \<le> 8640000000000000"
      using ok True by (simp add: used_at_def)
    ultimately show ?thesis
      using u[of ?w3] c True nx[of "ticks w2"] by (simp add: used_at_def next_fault_def)
  next
    case False
    let ?w4 = "?w3\<lparr>ticks := Suc (ticks w2)\<rparr>"
    have "check_token_config request tc ?w3 = use_token tc ?w4"
      using False pt ne
      by (auto simp: check_token_config_def token_expired_def bind_io_def return_io_def
          now_io_def presents_token_def)
    moreover have "\<bar>clock ?w4 (ticks ?w4)\<bar> \<le> 8640000000000000"
      using ok False by (simp add: used_at_def)
    ultimately show ?thesis
      using u[of ?w4] c False nx[of "Suc (ticks w2)"] by (simp add: used_at_def next_fault_def)
  qed
qed

subsection \<open>Token rotation, step by step\<close>




subsection \<open>The claims about the AuthGate\<close>

text \<open>
  Claim C1, as amended. When an admin secret is configured and the request presents no
  valid session, a stored token configuration with \<open>neverExpire = false\<close> whose
  \<open>expires\<close> is earlier than the current time makes \<^verbatim>\<open>verifyAdmin\<close> return false,
  whatever token the request carries (the matching one included) and whatever the
  namespace operations do.
\<close>

theorem expired_token_denied:
  assumes "has_admin_password w" "IP_STORAGE w = Some st" "token_config st = Some tc"
    "\<not> neverExpire tc" "expires tc < clock w (ticks w)" "\<not> presents_valid_session request st"
  shows "fst (verifyAdmin request w) = Inr False"
  using assms
  by (auto simp: verifyAdmin_def verifyAdmin_try_def check_bearer_session_def check_url_session_def
      check_token_def check_token_config_def token_expired_def
      getTokenConfig_def presents_valid_session_def next_fault_def io_defs
      split: option.splits list.splits bool.splits sum.splits prod.splits if_splits)

theorem expired_token_denied_witness:
  "fst (verifyAdmin (request0 ''GET'' None None (Some ''tok'')) (world0 (Some ''pw'') [] 9000))
     = Inr False"
  by (rule expired_token_denied[of _ store0 tc0])
     (simp_all add: ex_defs has_admin_password_def truthy_def presents_valid_session_def
        bearer_session_def)

text \<open>
  Claim C1 as stated fails: a request that carries the matching, expired token is
  authorized when no admin secret is configured (open mode), and when it also presents
  a valid session.
\<close>

theorem expired_token_authorized_counterexample:
  "param_token (request0 ''GET'' None None (Some ''tok'')) = Some (token tc0)
   \<and> param_token (request0 ''GET'' None (Some ''s1'') (Some ''tok'')) = Some (token tc0)
   \<and> token_config store0 = Some tc0 \<and> \<not> neverExpire tc0 \<and> expires tc0 < 9000
   \<and> fst (verifyAdmin (request0 ''GET'' None None (Some ''tok'')) (world0 None [] 9000))
        = Inr True
   \<and> fst (verifyAdmin (request0 ''GET'' None (Some ''s1'') (Some ''tok''))
             (world0 (Some ''pw'') [] 9000)) = Inr True"
  by (simp add: ex_defs eval_defs)

text \<open>
  Claim C2. With an admin secret configured, if an operation on the namespace throws
  while \<^verbatim>\<open>verifyAdmin\<close> looks the credentials up (a session read, the read of the
  token configuration, the write of the token configuration, or any access to an unbound
  namespace), or any exception at all leaves the \<^verbatim>\<open>try\<close> block, then
  \<^verbatim>\<open>verifyAdmin\<close> returns false.
\<close>

theorem verifyAdmin_fail_closed:
  assumes "has_admin_password w"
    and "store_raised w (snd (verifyAdmin request w))
         \<or> (\<exists>e. fst (verifyAdmin_try request w) = Inl e)"
  shows "fst (verifyAdmin request w) = Inr False"
proof -
  obtain r w' where t: "verifyAdmin_try request w = (r, w')" by (cases "verifyAdmin_try request w")
  show ?thesis
  proof (cases r)
    case (Inl e)
    with t assms(1) show ?thesis by (simp add: verifyAdmin_result)
  next
    case (Inr b)
    with t assms(1) have v: "verifyAdmin request w = (Inr b, w')" by (simp add: verifyAdmin_result)
    have "\<not> b"
    proof
      assume b
      with t Inr have T: "verifyAdmin_try request w = (Inr True, w')" by simp
      then have "quiet w w'" by (rule verifyAdmin_try_quiet)
      moreover have "IP_STORAGE w \<noteq> None" using verifyAdmin_try_unbound[of w request] T by auto
      ultimately have "\<not> store_raised w w'" by (rule quiet_not_raised)
      with assms(2) v t Inr show False by simp
    qed
    with v show ?thesis by simp
  qed
qed

theorem verifyAdmin_fail_closed_witness:
  "fst (verifyAdmin (request0 ''GET'' (Some ''Bearer s1'') None None)
         (world0 (Some ''pw'') [True] 1000)) = Inr False
   \<and> fst (verifyAdmin (request0 ''GET'' None None (Some ''tok''))
         (world0 (Some ''pw'') [False, True] 1000)) = Inr False"
proof
  show "fst (verifyAdmin (request0 ''GET'' (Some ''Bearer s1'') None None)
         (world0 (Some ''pw'') [True] 1000)) = Inr False"
    by (rule verifyAdmin_fail_closed) (simp_all add: ex_defs eval_defs store_raised_def)
  show "fst (verifyAdmin (request0 ''GET'' None None (Some ''tok''))
         (world0 (Some ''pw'') [False, True] 1000)) = Inr False"
    by (rule verifyAdmin_fail_closed) (simp_all add: ex_defs eval_defs store_raised_def)
qed

text \<open>
  Claim C3. If no admin secret is configured (\<^verbatim>\<open>ADMIN_PASSWORD\<close> unset or empty),
  \<^verbatim>\<open>verifyAdmin\<close> returns true for every request, without touching the namespace or
  the clock.
\<close>

theorem verifyAdmin_open_mode:
  "\<not> has_admin_password w \<Longrightarrow> verifyAdmin request w = (Inr True, w)"
  by (simp add: verifyAdmin_def)

theorem verifyAdmin_open_mode_witness:
  "verifyAdmin (request0 ''GET'' None None None) (world0 None [True] 1000)
     = (Inr True, world0 None [True] 1000)"
  by (rule verifyAdmin_open_mode) (simp add: ex_defs has_admin_password_def truthy_def)




text \<open>
  Claim C9, as amended. Let an admin secret be configured, and let the request present
  the stored token, unexpired, and no valid session, the session lookups and the read of
  the token configuration not failing. Then \<^verbatim>\<open>verifyAdmin\<close> returns true exactly when
  the write of the updated \<open>lastUsed\<close> does not throw: if the write succeeds the
  request is authorized and the stored configuration carries the new \<open>lastUsed\<close>; if
  the write throws the request is denied and the stored configuration is unchanged.
\<close>

theorem token_use_needs_persist:
  assumes hp: "has_admin_password w" and b: "IP_STORAGE w = Some st"
    and cfg: "token_config st = Some tc"
    and pt: "presents_token request tc" and nv: "\<not> presents_valid_session request st"
    and nf: "\<forall>n\<le>session_reads request. \<not> fault_at w n"
    and ne: "neverExpire tc \<or> \<not> expires tc < clock w (ticks w)"
    and ok: "\<bar>used_at w tc\<bar> \<le> 8640000000000000"
  shows "fst (verifyAdmin request w) = Inr (\<not> fault_at w (Suc (session_reads request)))
       \<and> IP_STORAGE (snd (verifyAdmin request w)) =
           Some (if fault_at w (Suc (session_reads request)) then st
                 else st\<lparr>token_config := Some (tc\<lparr>lastUsed := Some (used_at w tc)\<rparr>)\<rparr>)"
proof -
  from nf have "\<forall>n<session_reads request. \<not> fault_at w n" by auto
  from sessions_phase[OF b nv this] obtain w2 where
    t: "verifyAdmin_try request w = check_token request w2" and e: "same_env w w2"
    and f: "faults w2 = drop (session_reads request) (faults w)" by blast
  have b2: "IP_STORAGE w2 = Some st" using e b by (simp add: same_env_def)
  have nf2: "\<not> next_fault w2" using next_fault_drop[OF f] nf by simp
  have ne2: "neverExpire tc \<or> \<not> expires tc < clock w2 (ticks w2)"
    using ne e by (simp add: same_env_def)
  have us: "used_at w2 tc = used_at w tc" using e by (simp add: same_env_def used_at_def)
  have "faults (w2\<lparr>faults := tl (faults w2)\<rparr>) = drop (Suc (session_reads request)) (faults w)"
    using f by (simp add: drop_Suc tl_drop)
  then have F: "next_fault (w2\<lparr>faults := tl (faults w2)\<rparr>)
      = fault_at w (Suc (session_reads request))"
    by (rule next_fault_drop)
  from token_phase[OF b2 cfg nf2 pt ne2] ok us F
  have "fst (check_token request w2) =
           (if fault_at w (Suc (session_reads request)) then Inl StoreError else Inr True)
       \<and> IP_STORAGE (snd (check_token request w2)) =
           Some (if fault_at w (Suc (session_reads request)) then st
                 else st\<lparr>token_config := Some (tc\<lparr>lastUsed := Some (used_at w tc)\<rparr>)\<rparr>)"
    by simp
  then show ?thesis
    using hp t by (cases "check_token request w2"; cases "fst (check_token request w2)")
      (auto simp: verifyAdmin_result split: if_splits)
qed

theorem token_use_needs_persist_witness:
  "fst (verifyAdmin (request0 ''GET'' None None (Some ''tok''))
         (world0 (Some ''pw'') [False, True] 1000)) = Inr False
   \<and> IP_STORAGE (snd (verifyAdmin (request0 ''GET'' None None (Some ''tok''))
         (world0 (Some ''pw'') [False, True] 1000))) = Some store0
   \<and> fst (verifyAdmin (request0 ''GET'' None None (Some ''tok''))
         (world0 (Some ''pw'') [] 1000)) = Inr True
   \<and> IP_STORAGE (snd (verifyAdmin (request0 ''GET'' None None (Some ''tok''))
         (world0 (Some ''pw'') [] 1000)))
      = Some (store0\<lparr>token_config := Some (tc0\<lparr>lastUsed := Some 1001\<rparr>)\<rparr>)"
  using token_use_needs_persist[of "world0 (Some ''pw'') [False, True] 1000" store0 tc0
      "request0 ''GET'' None None (Some ''tok'')"]
    token_use_needs_persist[of "world0 (Some ''pw'') [] 1000" store0 tc0
      "request0 ''GET'' None None (Some ''tok'')"]
  by (simp add: ex_defs has_admin_password_def truthy_def presents_valid_session_def
      bearer_session_def presents_token_def session_reads_def fault_at_def used_at_def)

text \<open>
  Claim C9 as stated fails: a request that presents the matching, unexpired token is
  denied when the write of \<open>lastUsed\<close> throws (the read succeeds, the write fails).
\<close>

theorem persist_failure_denies_counterexample:
  "param_token (request0 ''GET'' None None (Some ''tok'')) = Some (token tc0)
   \<and> token_config store0 = Some tc0 \<and> \<not> expires tc0 < 1000
   \<and> fst (verifyAdmin (request0 ''GET'' None None (Some ''tok''))
            (world0 (Some ''pw'') [False, True] 1000)) = Inr False"
  by (simp add: ex_defs eval_defs)

text \<open>
  Claim C10, as amended. A request to \<^verbatim>\<open>/admin-status\<close> that is not an OPTIONS
  preflight is answered by \<^verbatim>\<open>handleAdminStatus(env)\<close>, which never sees the request
  and does not call \<^verbatim>\<open>verifyAdmin\<close>: two such requests get the same answer whatever
  credentials they carry, and when the read of the token configuration succeeds the
  answer has status 200 and its body holds the whole stored TokenConfig object, the
  token included.
\<close>

theorem admin_status_discloses_token:
  assumes "IP_STORAGE w = Some st" "token_config st = Some tc" "\<not> next_fault w"
    and "pathname request = ''/admin-status''" "http_method request \<noteq> ''OPTIONS''"
    and "pathname request' = ''/admin-status''" "http_method request' \<noteq> ''OPTIONS''"
  shows "fetch rest request w = fetch rest request' w
       \<and> fst (fetch rest request w) =
            Inr \<lparr>status_code = 200,
                 payload = StatusBody (has_admin_password w) True (Some tc)\<rparr>
       \<and> map_sum id payload (fst (fetch rest request w)) =
            Inr (StatusBody (has_admin_password w) True (Some tc))"
  using assms
  by (simp add: fetch_def handleAdminStatus_def getTokenConfig_def get_token_config_def
      catch_io_def bind_io_def return_io_def kv_op_ok has_admin_password_def jsonResponse_def)

theorem admin_status_discloses_token_witness:
  "fst (verifyAdmin (request0 ''GET'' None None None) (world0 (Some ''pw'') [] 1000)) = Inr False
   \<and> fetch no_rest (request0 ''GET'' None None None) (world0 (Some ''pw'') [] 1000)
     = fetch no_rest (request0 ''GET'' (Some ''Bearer s1'') None (Some ''tok''))
         (world0 (Some ''pw'') [] 1000)
   \<and> fst (fetch no_rest (request0 ''GET'' None None None) (world0 (Some ''pw'') [] 1000))
     = Inr \<lparr>status_code = 200, payload = StatusBody True True (Some tc0)\<rparr>
   \<and> map_sum id payload
         (fst (fetch no_rest (request0 ''GET'' None None None) (world0 (Some ''pw'') [] 1000)))
     = Inr (StatusBody True True
              (Some \<lparr>token = ''tok'', expires = 5000, createdAt = 0, lastUsed = None,
                      neverExpire = False\<rparr>))"
proof -
  have v: "fst (verifyAdmin (request0 ''GET'' None None None) (world0 (Some ''pw'') [] 1000))
      = Inr False"
    by (simp add: ex_defs eval_defs)
  have p: "has_admin_password (world0 (Some ''pw'') [] 1000)"
    by (simp add: world0_def has_admin_password_def truthy_def)
  have t: "tc0 = \<lparr>token = ''tok'', expires = 5000, createdAt = 0, lastUsed = None,
                   neverExpire = False\<rparr>"
    by (simp add: tc0_def)
  have "fetch no_rest (request0 ''GET'' None None None) (world0 (Some ''pw'') [] 1000)
     = fetch no_rest (request0 ''GET'' (Some ''Bearer s1'') None (Some ''tok''))
         (world0 (Some ''pw'') [] 1000)
   \<and> fst (fetch no_rest (request0 ''GET'' None None None) (world0 (Some ''pw'') [] 1000))
     = Inr \<lparr>status_code = 200,
            payload = StatusBody (has_admin_password (world0 (Some ''pw'') [] 1000)) True
              (Some tc0)\<rparr>
   \<and> map_sum id payload
         (fst (fetch no_rest (request0 ''GET'' None None None) (world0 (Some ''pw'') [] 1000)))
     = Inr (StatusBody (has_admin_password (world0 (Some ''pw'') [] 1000)) True (Some tc0))"
    by (rule admin_status_discloses_token[of _ store0])
       (simp_all add: ex_defs next_fault_def)
  with v p t show ?thesis by auto
qed

text \<open>
  Claim C10 as stated fails for two kinds of request to \<^verbatim>\<open>/admin-status\<close>: an
  OPTIONS request is answered by \<^verbatim>\<open>handleCORS()\<close> before the switch on the path, with
  no body at all; and when the read of the token configuration throws,
  \<^verbatim>\<open>getTokenConfig\<close> returns null and the body says \<open>hasToken: false\<close>,
  \<open>tokenConfig: null\<close>, although a TokenConfig is stored.
\<close>

theorem admin_status_no_token_counterexample:
  "pathname (request0 ''OPTIONS'' None None None) = ''/admin-status''
   \<and> pathname (request0 ''GET'' None None None) = ''/admin-status''
   \<and> token_config store0 = Some tc0
   \<and> fst (fetch no_rest (request0 ''OPTIONS'' None None None) (world0 (Some ''pw'') [] 1000))
     = Inr \<lparr>status_code = 200, payload = NoBody\<rparr>
   \<and> fst (fetch no_rest (request0 ''GET'' None None None) (world0 (Some ''pw'') [True] 1000))
     = Inr \<lparr>status_code = 200, payload = StatusBody True False None\<rparr>
   \<and> fst (fetch no_rest (request0 ''GET'' None None None) (world0 (Some ''pw'') [] 1000))
     \<noteq> fst (fetch no_rest (request0 ''OPTIONS'' None None None) (world0 (Some ''pw'') [] 1000))"
  by (simp add: fetch_def handleAdminStatus_def handleCORS_def jsonResponse_def ex_defs eval_defs)

section \<open>Properties of the AddressValidator\<close>

lemma isDigit_not_space: "isDigit c \<Longrightarrow> \<not> isWhiteSpace c"
  by (auto simp: isDigit_def isWhiteSpace_def)

lemma isDigit_radix_val: "isDigit c \<Longrightarrow> radix_val c = of_char c - 48"
  by (auto simp: isDigit_def radix_val_def Let_def)

lemma isDigit_radix_lt: "isDigit c \<Longrightarrow> radix_val c < 10"
  by (auto simp: isDigit_def radix_val_def Let_def)

lemma isDigit_not_sign: "isDigit c \<Longrightarrow> c \<noteq> CHR ''+'' \<and> c \<noteq> CHR ''-'' \<and> c \<noteq> CHR ''x'' \<and> c \<noteq> CHR ''X'' \<and> c \<noteq> CHR ''.''"
  by (auto simp: isDigit_def)

lemma takeWhile_digits: "list_all isDigit g \<Longrightarrow> takeWhile (\<lambda>c. radix_val c < 10) g = g"
  by (induction g) (auto simp: isDigit_radix_lt)

lemma foldl_digits:
  "list_all isDigit g \<Longrightarrow>
     foldl (\<lambda>n c. 10 * n + radix_val c) a g = foldl (\<lambda>n c. 10 * n + (of_char c - 48)) a g"
  by (induction g arbitrary: a) (auto simp: isDigit_radix_val)

lemma digits_no_hex: "list_all isDigit g \<Longrightarrow> \<not> startsWith g ''0x'' \<and> \<not> startsWith g ''0X''"
  by (cases g; cases "tl g") (auto simp: startsWith_def isDigit_not_sign)

lemma parseInt_digits:
  assumes "list_all isDigit g"
  shows "parseInt (Some 10) g = (if g = [] then None else Some (int (group_value g)))"
    and "parseInt None g = (if g = [] then None else Some (int (group_value g)))"
proof -
  have d: "dropWhile isWhiteSpace g = g" using assms by (cases g) (auto simp: isDigit_not_space)
  have s: "g \<noteq> [] \<Longrightarrow> hd g \<noteq> CHR ''+'' \<and> hd g \<noteq> CHR ''-''"
    using assms by (cases g) (auto simp: isDigit_not_sign)
  show "parseInt (Some 10) g = (if g = [] then None else Some (int (group_value g)))"
    using assms s by (auto simp: parseInt_def d Let_def takeWhile_digits foldl_digits group_value_def)
  show "parseInt None g = (if g = [] then None else Some (int (group_value g)))"
    using assms s digits_no_hex[OF assms]
    by (auto simp: parseInt_def d Let_def takeWhile_digits foldl_digits group_value_def)
qed

lemma split_dot_digits:
  "digits_and_dots s \<Longrightarrow> list_all (list_all isDigit) (split_dot s)"
  by (induction s) (auto simp: digits_and_dots_def split: list.splits)

lemma part_ok_digits:
  assumes "list_all isDigit g"
  shows "part_ok g \<longleftrightarrow> octet_group g"
  using assms by (cases g) (auto simp: part_ok_def octet_group_def decimal_group_def parseInt_digits startsWith_def)


lemma split_dot_head:
  "split_dot s = g # g' # gs \<Longrightarrow> \<exists>rest. s = g @ CHR ''.'' # rest \<and> CHR ''.'' \<notin> set g"
proof (induction s arbitrary: g)
  case Nil
  then show ?case by simp
next
  case (Cons c cs)
  show ?case
  proof (cases "c = CHR ''.''")
    case True
    with Cons.prems show ?thesis by auto
  next
    case False
    with Cons.prems obtain h where h: "split_dot cs = h # g' # gs" and g: "g = c # h"
      by (auto split: list.splits)
    from Cons.IH[OF h] obtain rest where "cs = h @ CHR ''.'' # rest" "CHR ''.'' \<notin> set h" by blast
    with g False show ?thesis by auto
  qed
qed

lemma startsWith_group:
  "CHR ''.'' \<notin> set g \<Longrightarrow> CHR ''.'' \<notin> set p \<Longrightarrow>
     startsWith (g @ CHR ''.'' # rest) (p @ ''.'') \<longleftrightarrow> g = p"
proof (induction p arbitrary: g)
  case Nil
  then show ?case by (cases g) (auto simp: startsWith_def)
next
  case (Cons a p)
  show ?case
  proof (cases g)
    case Nil
    with Cons.prems show ?thesis by (auto simp: startsWith_def)
  next
    case (Cons b h)
    with Cons.prems Cons.IH[of h] show ?thesis by (auto simp: startsWith_def)
  qed
qed

lemma digit_char: "of_char c = (n::nat) \<Longrightarrow> of_char d = n \<Longrightarrow> c = d"
  by (metis of_char_eq_iff)

lemma group_value_snoc: "group_value (g @ [c]) = 10 * group_value g + (of_char c - 48)"
  by (simp add: group_value_def)

lemma group_value_lower:
  "g \<noteq> [] \<Longrightarrow> list_all isDigit g \<Longrightarrow> hd g \<noteq> CHR ''0'' \<Longrightarrow> 10 ^ (length g - 1) \<le> group_value g"
proof (induction g rule: rev_induct)
  case Nil
  then show ?case by simp
next
  case (snoc c g)
  show ?case
  proof (cases "g = []")
    case True
    with snoc.prems have "isDigit c" "c \<noteq> CHR ''0''" by auto
    then have "of_char c \<noteq> (48::nat)" using digit_char[of c 48 "CHR ''0''"] by auto
    with \<open>isDigit c\<close> have "1 \<le> (of_char c :: nat) - 48" unfolding isDigit_def by arith
    with True show ?thesis by (simp add: group_value_def)
  next
    case False
    with snoc have "10 ^ (length g - 1) \<le> group_value g" by auto
    then have "10 * 10 ^ (length g - 1) \<le> 10 * group_value g" by simp
    moreover from False have "10 * 10 ^ (length g - 1) = (10::nat) ^ length g"
      by (cases g) auto
    ultimately show ?thesis by (simp add: group_value_snoc)
  qed
qed

lemma digits_172:
  fixes x y z :: nat
  assumes "x \<le> 9" "y \<le> 9" "z \<le> 9" "100 * x + 10 * y + z = 172"
  shows "x = 1 \<and> y = 7 \<and> z = 2"
proof -
  have "x < 2"
  proof (rule ccontr)
    assume "\<not> x < 2"
    then have "200 \<le> 100 * x" by simp
    with assms show False by simp
  qed
  moreover have "x \<noteq> 0" using assms by auto
  ultimately have x: "x = 1" by simp
  with assms have e: "10 * y + z = 72" by simp
  have "y < 8"
  proof (rule ccontr)
    assume "\<not> y < 8"
    then have "80 \<le> 10 * y" by simp
    with e show False by simp
  qed
  moreover have "6 < y"
  proof (rule ccontr)
    assume "\<not> 6 < y"
    then have "10 * y \<le> 60" by simp
    with e assms show False by simp
  qed
  ultimately have y: "y = 7" by simp
  with e have "z = 2" by simp
  with x y show ?thesis by simp
qed

lemma value_172:
  assumes "octet_group g"
  shows "group_value g = 172 \<longleftrightarrow> g = ''172''"
proof
  assume "g = ''172''"
  then show "group_value g = 172" by (simp add: group_value_def)
next
  assume v: "group_value g = 172"
  from assms have d: "list_all isDigit g" and ne: "g \<noteq> []" and z: "g = ''0'' \<or> hd g \<noteq> CHR ''0''"
    by (auto simp: octet_group_def decimal_group_def)
  from z v have h: "hd g \<noteq> CHR ''0''" by (auto simp: group_value_def)
  from group_value_lower[OF ne d h] v have "(10::nat) ^ (length g - 1) \<le> 172" by simp
  have "length g - 1 < 3"
  proof (rule ccontr)
    assume "\<not> length g - 1 < 3"
    then have "(10::nat) ^ 3 \<le> 10 ^ (length g - 1)" by (intro power_increasing) auto
    with \<open>(10::nat) ^ (length g - 1) \<le> 172\<close> show False by simp
  qed
  with ne consider a where "g = [a]" | a b where "g = [a, b]" | a b c where "g = [a, b, c]"
    by (cases g; cases "tl g"; cases "tl (tl g)"; cases "tl (tl (tl g))") auto
  then show "g = ''172''"
  proof cases
    case 1
    with v d show ?thesis by (auto simp: group_value_def isDigit_def)
  next
    case 2
    with v d show ?thesis by (auto simp: group_value_def isDigit_def)
  next
    case 3
    define x y z where "x = (of_char a :: nat) - 48" and "y = (of_char b :: nat) - 48"
      and "z = (of_char c :: nat) - 48"
    from 3 d have r: "48 \<le> (of_char a :: nat)" "(of_char a :: nat) \<le> 57"
      "48 \<le> (of_char b :: nat)" "(of_char b :: nat) \<le> 57"
      "48 \<le> (of_char c :: nat)" "(of_char c :: nat) \<le> 57"
      by (auto simp: isDigit_def)
    then have "x \<le> 9" "y \<le> 9" "z \<le> 9" unfolding x_def y_def z_def by arith+
    moreover from 3 v have "100 * x + 10 * y + z = 172"
      by (simp add: group_value_def x_def y_def z_def)
    ultimately have "x = 1 \<and> y = 7 \<and> z = 2" by (rule digits_172)
    with r have "of_char a = (49::nat)" "of_char b = (55::nat)" "of_char c = (50::nat)"
      unfolding x_def y_def z_def by arith+
    then have "a = CHR ''1''" "b = CHR ''7''" "c = CHR ''2''"
      by (auto intro: digit_char)
    with 3 show ?thesis by simp
  qed
qed


lemma digits_of_groups:
  "list_all (list_all isDigit) (split_dot s) \<Longrightarrow> digits_and_dots s"
  by (induction s) (auto simp: digits_and_dots_def split: list.splits if_splits)

lemma spec_digits: "isValid_spec s \<Longrightarrow> digits_and_dots s"
proof -
  assume "isValid_spec s"
  then have "list_all octet_group (split_dot s)" by (simp add: isValid_spec_def Let_def)
  then have "list_all (list_all isDigit) (split_dot s)"
    by (auto simp: list_all_iff octet_group_def decimal_group_def)
  then show ?thesis by (rule digits_of_groups)
qed

lemma isValidIPv4_digits:
  assumes dd: "digits_and_dots s"
  shows "isValidIPv4 s = isValid_spec s"
proof -
  let ?gs = "split_dot s"
  have dg: "list_all (list_all isDigit) ?gs" using dd by (rule split_dot_digits)
  have po: "list_all part_ok ?gs = list_all octet_group ?gs"
    using dg by (auto simp: list_all_iff part_ok_digits)
  show ?thesis
  proof (cases "length ?gs = 4 \<and> list_all octet_group ?gs")
    case False
    then show ?thesis using po by (auto simp: isValidIPv4_def isValid_spec_def Let_def)
  next
    case True
    then obtain g0 g1 g2 g3 where gs: "?gs = [g0, g1, g2, g3]"
      by (cases ?gs; cases "tl ?gs"; cases "tl (tl ?gs)"; cases "tl (tl (tl ?gs))") auto
    from True gs have o0: "octet_group g0" and o1: "octet_group g1" by auto
    from split_dot_head[of s g0 g1 "[g2, g3]"] gs obtain rest where
      s: "s = g0 @ CHR ''.'' # rest" and nd: "CHR ''.'' \<notin> set g0" by auto
    have "startsWith s (''172'' @ ''.'') \<longleftrightarrow> g0 = ''172''"
      unfolding s using nd by (intro startsWith_group) auto
    then have p172: "startsWith s ''172.'' \<longleftrightarrow> group_value g0 = 172"
      using value_172[OF o0] by simp
    from o1 have d1: "list_all isDigit g1" "g1 \<noteq> []"
      by (auto simp: octet_group_def decimal_group_def)
    then have r: "in_range_16_31 g1 \<longleftrightarrow> 16 \<le> group_value g1 \<and> group_value g1 \<le> 31"
      by (auto simp: in_range_16_31_def parseInt_digits)
    show ?thesis
      using True po gs p172 r by (auto simp: isValidIPv4_def isValid_spec_def Let_def)
  qed
qed

text \<open>
  Claim C4, as amended. \<^verbatim>\<open>isValidIPv4\<close> is a total function of the string (no
  statement of it can throw on a string). On every string made of decimal digits and
  dots only, as every candidate the harvester's pattern extracts is, it returns true
  exactly when the rules of the specification hold; and on every string whatsoever it
  returns true when the rules hold.
\<close>

theorem isValidIPv4_meets_spec:
  "(digits_and_dots s \<longrightarrow> isValidIPv4 s = isValid_spec s) \<and> (isValid_spec s \<longrightarrow> isValidIPv4 s)"
  using isValidIPv4_digits[of s] spec_digits[of s] by blast

theorem isValidIPv4_meets_spec_witness:
  "digits_and_dots ''1.1.1.1'' \<and> isValidIPv4 ''1.1.1.1'' \<and> isValid_spec ''1.1.1.1''
   \<and> digits_and_dots ''192.168.1.1'' \<and> \<not> isValidIPv4 ''192.168.1.1''
   \<and> digits_and_dots ''300.1.1.1'' \<and> \<not> isValidIPv4 ''300.1.1.1''
   \<and> digits_and_dots ''172.16.0.1'' \<and> \<not> isValidIPv4 ''172.16.0.1''"
  using isValidIPv4_meets_spec[of "''1.1.1.1''"] isValidIPv4_meets_spec[of "''192.168.1.1''"]
    isValidIPv4_meets_spec[of "''300.1.1.1''"] isValidIPv4_meets_spec[of "''172.16.0.1''"]
  by (simp add: digits_and_dots_def isDigit_def isValid_spec_def octet_group_def decimal_group_def
      group_value_def startsWith_def)

text \<open>
  Claim C4 as stated fails on strings that are not made of decimal groups:
  \<^verbatim>\<open>parseInt\<close> reads the leading digits of a group and ignores what follows, so
  \<^verbatim>\<open>1x.1.1.1\<close> is accepted although \<^verbatim>\<open>1x\<close> is not a decimal group.
\<close>

theorem isValidIPv4_lenient_counterexample:
  "isValidIPv4 ''1x.1.1.1'' \<and> \<not> isValid_spec ''1x.1.1.1''"
  by (simp add: isValidIPv4_def isValid_spec_def part_ok_def parseInt_def radix_val_def
      isWhiteSpace_def startsWith_def octet_group_def decimal_group_def isDigit_def Let_def)

section \<open>Properties of the sort\<close>

lemma set_js_insert: "set (js_insert cmp x xs) = insert x (set xs)"
  by (induction xs) auto

lemma length_js_insert: "length (js_insert cmp x xs) = Suc (length xs)"
  by (induction xs) auto

lemma distinct_js_insert: "distinct (js_insert cmp x xs) = (x \<notin> set xs \<and> distinct xs)"
  by (induction xs) (auto simp: set_js_insert)

lemma set_js_sort: "set (js_sort cmp xs) = set xs"
  by (induction xs) (auto simp: js_sort_def set_js_insert)

lemma length_js_sort: "length (js_sort cmp xs) = length xs"
  by (induction xs) (auto simp: js_sort_def length_js_insert)

lemma distinct_js_sort: "distinct (js_sort cmp xs) = distinct xs"
  by (induction xs) (auto simp: js_sort_def distinct_js_insert set_js_sort[unfolded js_sort_def])

lemma sorted_js_insert:
  fixes key :: "'a \<Rightarrow> 'k::linorder"
  assumes "\<forall>y\<in>set xs. (sort_order (cmp x y) \<le> 0) = (key x \<le> key y)"
    and "sorted (map key xs)"
  shows "sorted (map key (js_insert cmp x xs))"
  using assms
proof (induction xs)
  case Nil
  then show ?case by simp
next
  case (Cons y ys)
  then show ?case by (auto simp: set_js_insert)
qed

lemma sorted_js_sort:
  fixes key :: "'a \<Rightarrow> 'k::linorder"
  assumes "\<forall>x\<in>set xs. \<forall>y\<in>set xs. (sort_order (cmp x y) \<le> 0) = (key x \<le> key y)"
  shows "sorted (map key (js_sort cmp xs))"
  using assms
proof (induction xs)
  case Nil
  then show ?case by (simp add: js_sort_def)
next
  case (Cons x xs)
  then have "sorted (map key (js_sort cmp xs))" by simp
  moreover have "\<forall>y\<in>set (js_sort cmp xs). (sort_order (cmp x y) \<le> 0) = (key x \<le> key y)"
    using Cons.prems by (simp add: set_js_sort)
  ultimately have "sorted (map key (js_insert cmp x (js_sort cmp xs)))"
    by (intro sorted_js_insert) auto
  then show ?case by (simp add: js_sort_def)
qed


section \<open>Properties of the Harvester\<close>

lemma zip_map_self: "zip xs (map f xs) = map (\<lambda>x. (x, f x)) xs"
  by (induction xs) auto

lemma drop_split3: "drop i xs = take 3 (drop i xs) @ drop (i + 3) xs"
proof -
  have "drop (i + 3) xs = drop 3 (drop i xs)" by (simp add: add.commute)
  then show ?thesis by (simp only: append_take_drop_id)
qed

lemma harvest_batches_fold:
  "harvest_batches net us i acc = foldl collect acc (map (settled net) (drop i us))"
proof (induction net us i acc rule: harvest_batches.induct)
  case (1 net us i acc)
  show ?case
  proof (cases "i < length us")
    case False
    then show ?thesis by (subst harvest_batches.simps) simp
  next
    case True
    have z: "zip (take 3 (drop i us)) (map (fetchURLWithTimeout net) (take 3 (drop i us)))
        = map (settled net) (take 3 (drop i us))"
      by (simp add: zip_map_self settled_def)
    have "harvest_batches net us i acc
        = harvest_batches net us (i + 3) (foldl collect acc (map (settled net) (take 3 (drop i us))))"
      using True by (subst harvest_batches.simps) (simp only: Let_def z if_True)
    also have "\<dots> = foldl collect (foldl collect acc (map (settled net) (take 3 (drop i us))))
          (map (settled net) (drop (i + 3) us))"
      using "1.IH"[OF True refl refl, unfolded z] .
    also have "\<dots> = foldl collect acc (map (settled net) (drop i us))"
      by (subst (2) drop_split3) simp
    finally show ?thesis .
  qed
qed

lemma collect_failed:
  "\<not> source_ok net u \<Longrightarrow> uniqueIPs (collect acc (settled net u)) = uniqueIPs acc
     \<and> results (collect acc (settled net u))
         = results acc @ [\<lparr>name = getSourceName u, status = error, count = 0,
              error_detail = (case fetchURLWithTimeout net u of Inl e \<Rightarrow> Some e | Inr t \<Rightarrow> None)\<rparr>]"
  by (auto simp: collect_def settled_def source_ok_def split: sum.splits)

lemma collect_uniqueIPs_indep:
  "uniqueIPs acc = uniqueIPs acc' \<Longrightarrow>
     uniqueIPs (collect acc (settled net u)) = uniqueIPs (collect acc' (settled net u))"
  by (auto simp: collect_def settled_def Let_def split: sum.splits)

lemma status_report_of: "status (report_of net u) = (if source_ok net u then success else error)"
  by (simp add: report_of_def source_ok_def split: sum.splits)

lemma collect_results:
  "results (collect acc (settled net u)) = results acc @ [report_of net u]"
  by (auto simp: collect_def settled_def report_of_def Let_def split: sum.splits)

lemma fold_reports:
  "results (foldl collect acc (map (settled net) us)) = results acc @ map (report_of net) us"
  by (induction us arbitrary: acc) (simp_all add: collect_results)

lemma fold_unique_filter:
  "uniqueIPs acc = uniqueIPs acc' \<Longrightarrow>
     uniqueIPs (foldl collect acc (map (settled net) (filter (source_ok net) us)))
       = uniqueIPs (foldl collect acc' (map (settled net) us))"
proof (induction us arbitrary: acc acc')
  case Nil
  then show ?case by simp
next
  case (Cons u us)
  show ?case
  proof (cases "source_ok net u")
    case True
    have "uniqueIPs (collect acc (settled net u)) = uniqueIPs (collect acc' (settled net u))"
      using Cons.prems by (rule collect_uniqueIPs_indep)
    from Cons.IH[OF this] True show ?thesis by simp
  next
    case False
    then have "uniqueIPs acc = uniqueIPs (collect acc' (settled net u))"
      using Cons.prems collect_failed[of net u acc'] by simp
    from Cons.IH[OF this] False show ?thesis by simp
  qed
qed

lemma filter_reports:
  "filter (\<lambda>r. status r = success) (map (report_of net) us)
     = map (report_of net) (filter (source_ok net) us)"
  by (induction us) (auto simp: status_report_of)

text \<open>
  Claim C7. For every list of sources and every outcome of their fetches: one report is
  recorded per source, in order, with status \<open>error\<close> exactly for the sources whose
  fetch failed; and the addresses and the reports the successful sources contribute are
  those of the run in which the failing sources are absent.
\<close>

theorem source_failure_contained:
  "length (results (updateAllIPs_from us net)) = length us
   \<and> (\<forall>i<length us. status (results (updateAllIPs_from us net) ! i)
          = (if source_ok net (us ! i) then success else error))
   \<and> uniqueIPs (updateAllIPs_from (filter (source_ok net) us) net) = uniqueIPs (updateAllIPs_from us net)
   \<and> results (updateAllIPs_from (filter (source_ok net) us) net)
       = filter (\<lambda>r. status r = success) (results (updateAllIPs_from us net))"
proof -
  have r: "results (updateAllIPs_from vs net) = map (report_of net) vs" for vs
    by (simp add: updateAllIPs_from_def Let_def harvest_batches_fold fold_reports)
  have u: "uniqueIPs (harvest_batches net (filter (source_ok net) us) 0 \<lparr>uniqueIPs = [], results = []\<rparr>)
      = uniqueIPs (harvest_batches net us 0 \<lparr>uniqueIPs = [], results = []\<rparr>)"
    by (simp add: harvest_batches_fold fold_unique_filter)
  show ?thesis
    by (simp add: r status_report_of filter_reports) (simp add: updateAllIPs_from_def Let_def u)
qed

theorem source_failure_contained_witness:
  "length (results (updateAllIPs net0)) = 7
   \<and> \<not> source_ok net0 (urls ! 1)
   \<and> status (results (updateAllIPs net0) ! 1) = error
   \<and> uniqueIPs (updateAllIPs_from (filter (source_ok net0) urls) net0) = uniqueIPs (updateAllIPs net0)
   \<and> results (updateAllIPs_from (filter (source_ok net0) urls) net0)
       = filter (\<lambda>r. status r = success) (results (updateAllIPs net0))"
proof -
  have l: "length urls = 7" by (simp add: urls_def)
  have f: "\<not> source_ok net0 (urls ! 1)" by code_simp
  from source_failure_contained[of urls net0]
  have a: "length (results (updateAllIPs net0)) = length urls"
    and b: "\<forall>i<length urls. status (results (updateAllIPs net0) ! i)
          = (if source_ok net0 (urls ! i) then success else error)"
    and c: "uniqueIPs (updateAllIPs_from (filter (source_ok net0) urls) net0)
          = uniqueIPs (updateAllIPs net0)"
    and d: "results (updateAllIPs_from (filter (source_ok net0) urls) net0)
          = filter (\<lambda>r. status r = success) (results (updateAllIPs net0))"
    by (simp_all add: updateAllIPs_def)
  from b l have "status (results (updateAllIPs net0) ! 1)
      = (if source_ok net0 (urls ! 1) then success else error)" by simp
  with f have "status (results (updateAllIPs net0) ! 1) = error" by simp
  with a l f c d show ?thesis by simp
qed

section \<open>Properties of the harvested list\<close>

lemma first_some_Some: "first_some f xs = Some y \<Longrightarrow> \<exists>x\<in>set xs. f x = Some y"
  by (induction xs) (auto split: option.splits)

lemma digit_runs_digits:
  assumes "n \<in> set (digit_runs s)"
  shows "list_all isDigit (take n s) \<and> n \<le> length s"
proof -
  let ?t = "takeWhile isDigit (take 3 s)"
  from assms have n: "n \<le> length ?t" unfolding digit_runs_def set_filter by blast
  have t: "?t = take (length ?t) (take 3 s)" by (rule takeWhile_eq_take)
  have l: "length ?t \<le> length (take 3 s)" by (rule length_takeWhile_le)
  then have l3: "length ?t \<le> 3" and ls: "length ?t \<le> length s" by simp_all
  have e1: "take n (take (length ?t) (take 3 s)) = take n (take 3 s)"
    using n l3 by (simp add: min_def)
  have e2: "take n (take 3 s) = take n s" using n l3 by (simp add: min_def)
  have "take n s = take n ?t" using t e1 e2 by metis
  moreover have "list_all isDigit (take n ?t)"
    by (auto simp: list_all_iff dest!: in_set_takeD set_takeWhileD)
  ultimately show ?thesis using n ls by simp
qed

lemma match_groups_digits:
  "match_groups k s = Some n \<Longrightarrow> digits_and_dots (take n s)"
proof (induction k arbitrary: s n)
  case 0
  then obtain m where m: "m \<in> set (digit_runs s)" and "n = m"
    by (auto dest!: first_some_Some split: if_splits)
  with digit_runs_digits[OF m] show ?case by (auto simp: digits_and_dots_def list_all_iff)
next
  case (Suc k)
  then obtain m r where m: "m \<in> set (digit_runs s)" and c: "char_at s m = Some CHR ''.''"
    and r: "match_groups k (drop (m + 1) s) = Some r" and n: "n = m + 1 + r"
    by (auto dest!: first_some_Some split: if_splits)
  from c have ml: "m < length s" and sm: "s ! m = CHR ''.''"
    by (auto simp: char_at_def split: if_splits)
  have "take (Suc m + r) s = take (Suc m) s @ take r (drop (Suc m) s)" by (rule take_add)
  moreover have "take (Suc m) s = take m s @ [s ! m]" using ml by (rule take_Suc_conv_app_nth)
  ultimately have "take n s = take m s @ [s ! m] @ take r (drop (m + 1) s)"
    using n by simp
  moreover have "digits_and_dots (take r (drop (m + 1) s))" using Suc.IH[OF r] .
  moreover have "list_all isDigit (take m s)" using digit_runs_digits[OF m] by simp
  ultimately show ?case using sm by (auto simp: digits_and_dots_def list_all_iff)
qed

lemma scan_digits: "m \<in> set (scan prev skip s) \<Longrightarrow> digits_and_dots m"
proof (induction s arbitrary: prev skip)
  case Nil
  then show ?case by simp
next
  case (Cons c cs)
  show ?case
  proof (cases "skip > 0")
    case True
    with Cons show ?thesis by auto
  next
    case False
    show ?thesis
    proof (cases "match_at prev (c # cs)")
      case None
      with False Cons show ?thesis by auto
    next
      case (Some n)
      then have "match_groups 3 (c # cs) = Some n" by (auto simp: match_at_def split: if_splits)
      then have "digits_and_dots (take n (c # cs))" by (rule match_groups_digits)
      with False Some Cons show ?thesis by auto
    qed
  qed
qed

lemma match_all_digits: "m \<in> set (match_all text) \<Longrightarrow> digits_and_dots m"
  unfolding match_all_def by (rule scan_digits)

lemma good_set_add:
  "good xs \<Longrightarrow> isValidIPv4 m \<Longrightarrow> digits_and_dots m \<Longrightarrow> good (set_add m xs)"
  by (simp add: good_def set_add_def)

lemma good_add:
  "good xs \<Longrightarrow> \<forall>m\<in>set ms. digits_and_dots m \<Longrightarrow>
     good (foldl (\<lambda>s m. if isValidIPv4 m then set_add m s else s) xs ms)"
proof (induction ms arbitrary: xs)
  case Nil
  then show ?case by simp
next
  case (Cons m ms)
  have "good (if isValidIPv4 m then set_add m xs else xs)"
    using Cons.prems by (simp add: good_set_add)
  moreover have "\<forall>m\<in>set ms. digits_and_dots m" using Cons.prems by simp
  ultimately show ?case using Cons.IH by simp
qed

lemma good_collect: "good (uniqueIPs acc) \<Longrightarrow> good (uniqueIPs (collect acc (settled net u)))"
proof (cases "fetchURLWithTimeout net u")
  case (Inl e)
  assume "good (uniqueIPs acc)"
  with Inl show ?thesis by (simp add: collect_def settled_def)
next
  case (Inr t)
  assume g: "good (uniqueIPs acc)"
  have "\<forall>m\<in>set (match_all t). digits_and_dots m" by (simp add: match_all_digits)
  from good_add[OF g this] Inr show ?thesis by (simp add: collect_def settled_def Let_def)
qed

lemma good_fold:
  "good (uniqueIPs acc) \<Longrightarrow> good (uniqueIPs (foldl collect acc (map (settled net) us)))"
  by (induction us arbitrary: acc) (simp_all add: good_collect)



lemma valid_parts:
  assumes "isValidIPv4 a" "digits_and_dots a"
  shows "\<exists>a0 a1 a2 a3. split_dot a = [a0, a1, a2, a3]
     \<and> map (parseInt (Some 10)) [a0, a1, a2, a3] = map (\<lambda>g. Some (int (group_value g))) [a0, a1, a2, a3]"
proof -
  from assms have "isValid_spec a" by (simp add: isValidIPv4_digits)
  then have l: "length (split_dot a) = 4" and o: "list_all octet_group (split_dot a)"
    by (simp_all add: isValid_spec_def Let_def)
  from l obtain a0 a1 a2 a3 where s: "split_dot a = [a0, a1, a2, a3]"
    by (cases "split_dot a"; cases "tl (split_dot a)"; cases "tl (tl (split_dot a))";
        cases "tl (tl (tl (split_dot a)))") auto
  from o s have "\<forall>g\<in>set [a0, a1, a2, a3]. list_all isDigit g \<and> g \<noteq> []"
    by (auto simp: octet_group_def decimal_group_def)
  then have "\<forall>g\<in>set [a0, a1, a2, a3]. parseInt (Some 10) g = Some (int (group_value g))"
    by (auto simp: parseInt_digits)
  with s show ?thesis by auto
qed

lemma compareIPs_quad:
  assumes "isValidIPv4 a" "digits_and_dots a" "isValidIPv4 b" "digits_and_dots b"
  shows "(sort_order (compareIPs a b) \<le> 0) = (quad a \<le> quad b)"
proof -
  from valid_parts[OF assms(1,2)] obtain a0 a1 a2 a3 where a: "split_dot a = [a0, a1, a2, a3]"
    and pa: "map (parseInt (Some 10)) [a0, a1, a2, a3] = map (\<lambda>g. Some (int (group_value g))) [a0, a1, a2, a3]"
    by blast
  from valid_parts[OF assms(3,4)] obtain b0 b1 b2 b3 where b: "split_dot b = [b0, b1, b2, b3]"
    and pb: "map (parseInt (Some 10)) [b0, b1, b2, b3] = map (\<lambda>g. Some (int (group_value g))) [b0, b1, b2, b3]"
    by blast
  have na: "part_num [a0, a1, a2, a3] 0 = Number (int (group_value a0))"
    "part_num [a0, a1, a2, a3] (Suc 0) = Number (int (group_value a1))"
    "part_num [a0, a1, a2, a3] 2 = Number (int (group_value a2))"
    "part_num [a0, a1, a2, a3] 3 = Number (int (group_value a3))"
    using pa by (simp_all add: part_num_def)
  have nb: "part_num [b0, b1, b2, b3] 0 = Number (int (group_value b0))"
    "part_num [b0, b1, b2, b3] (Suc 0) = Number (int (group_value b1))"
    "part_num [b0, b1, b2, b3] 2 = Number (int (group_value b2))"
    "part_num [b0, b1, b2, b3] 3 = Number (int (group_value b3))"
    using pb by (simp_all add: part_num_def)
  have q: "quad a = (group_value a0, group_value a1, group_value a2, group_value a3)"
    "quad b = (group_value b0, group_value b1, group_value b2, group_value b3)"
    by (simp_all add: quad_def a b)
  show ?thesis
    unfolding compareIPs_def a b q
    by (simp add: na nb strict_neq_def minus_js_def sort_order_def) auto
qed


text \<open>
  Claim C5. For every list of sources and every outcome of their fetches, the address
  list the harvester returns has no duplicates, is sorted ascending by the numeric
  4-tuple of its addresses (first octet, then second, then third, then fourth, as
  numbers), and holds valid addresses only. With a source whose text holds
  \<^verbatim>\<open>10.0.0.1\<close>, \<^verbatim>\<open>1.1.1.1\<close>, \<^verbatim>\<open>1.1.1.1\<close> and \<^verbatim>\<open>2.2.2.2\<close> (and no address
  from the other sources) the list is exactly \<^verbatim>\<open>1.1.1.1\<close>, \<^verbatim>\<open>2.2.2.2\<close>.
\<close>

theorem harvest_unique_sorted:
  "distinct (uniqueIPs (updateAllIPs_from us net))
   \<and> sorted (map quad (uniqueIPs (updateAllIPs_from us net)))
   \<and> (\<forall>a\<in>set (uniqueIPs (updateAllIPs_from us net)). isValid_spec a)
   \<and> uniqueIPs (updateAllIPs net0) = [''1.1.1.1'', ''2.2.2.2'']"
proof -
  let ?h = "harvest_batches net us 0 \<lparr>uniqueIPs = [], results = []\<rparr>"
  have g: "good (uniqueIPs ?h)"
    unfolding harvest_batches_fold by (rule good_fold) (simp add: good_def)
  have u: "uniqueIPs (updateAllIPs_from us net) = js_sort compareIPs (uniqueIPs ?h)"
    by (simp add: updateAllIPs_from_def Let_def)
  have "sorted (map quad (js_sort compareIPs (uniqueIPs ?h)))"
    using g by (intro sorted_js_sort) (auto simp: good_def compareIPs_quad)
  moreover have "distinct (js_sort compareIPs (uniqueIPs ?h))"
    using g by (simp add: distinct_js_sort good_def)
  moreover have "\<forall>a\<in>set (js_sort compareIPs (uniqueIPs ?h)). isValid_spec a"
    using g by (auto simp: set_js_sort good_def isValidIPv4_digits)
  moreover have "uniqueIPs (updateAllIPs net0) = [''1.1.1.1'', ''2.2.2.2'']"
    by code_simp
  ultimately show ?thesis by (simp add: u)
qed

theorem harvest_unique_sorted_witness:
  "uniqueIPs (updateAllIPs net0) = [''1.1.1.1'', ''2.2.2.2'']
   \<and> distinct (uniqueIPs (updateAllIPs net0))
   \<and> map quad (uniqueIPs (updateAllIPs net0)) = [(1, 1, 1, 1), (2, 2, 2, 2)]
   \<and> sorted (map quad (uniqueIPs (updateAllIPs net0)))
   \<and> isValid_spec ''1.1.1.1'' \<and> isValid_spec ''2.2.2.2''"
proof -
  have q: "map quad [''1.1.1.1'', ''2.2.2.2''] = [(1, 1, 1, 1), (2, 2, 2, 2)]"
    by code_simp
  from harvest_unique_sorted[of urls net0] q show ?thesis
    by (simp add: updateAllIPs_def)
qed

section \<open>Properties of the RankingEngine\<close>

lemma batch_zip:
  "zip batch (map (\<lambda>(k, address). testIPSpeed probe k address) (zip [i..<i + length batch] batch))
     = map (settle probe) (enumerate i batch)"
proof -
  have "zip batch (map f (enumerate i batch)) = map (\<lambda>ka. (snd ka, f ka)) (enumerate i batch)" for f :: "nat \<times> string \<Rightarrow> speedData"
    by (induction batch arbitrary: i) auto
  from this[of "\<lambda>(k, address). testIPSpeed probe k address"]
  show ?thesis by (simp add: enumerate_eq_zip settle_def case_prod_unfold)
qed

lemma enumerate_split:
  "enumerate i (drop i xs) = enumerate i (take 5 (drop i xs)) @ enumerate (i + 5) (drop (i + 5) xs)"
proof (cases "i + 5 \<le> length xs")
  case True
  have "drop (i + 5) xs = drop 5 (drop i xs)" by (simp add: add.commute)
  then have d: "drop i xs = take 5 (drop i xs) @ drop (i + 5) xs"
    by (simp only: append_take_drop_id)
  have l: "length (take 5 (drop i xs)) = 5" using True by simp
  have "enumerate i (drop i xs) = enumerate i (take 5 (drop i xs) @ drop (i + 5) xs)"
    using d by simp
  also have "\<dots> = enumerate i (take 5 (drop i xs))
      @ enumerate (i + length (take 5 (drop i xs))) (drop (i + 5) xs)"
    by (rule enumerate_append_eq)
  finally show ?thesis using l by simp
next
  case False
  then show ?thesis by simp
qed

lemma speed_batches_fold:
  "speed_batches probe xs i acc = foldl keep_result acc (map (settle probe) (enumerate i (drop i xs)))"
proof (induction probe xs i acc rule: speed_batches.induct)
  case (1 probe xs i acc)
  show ?case
  proof (cases "i < length xs")
    case False
    then show ?thesis by (subst speed_batches.simps) simp
  next
    case True
    have "speed_batches probe xs i acc
        = speed_batches probe xs (i + 5)
            (foldl keep_result acc (map (settle probe) (enumerate i (take 5 (drop i xs)))))"
      using True by (subst speed_batches.simps) (simp only: Let_def batch_zip if_True)
    also have "\<dots> = foldl keep_result
            (foldl keep_result acc (map (settle probe) (enumerate i (take 5 (drop i xs)))))
            (map (settle probe) (enumerate (i + 5) (drop (i + 5) xs)))"
      using "1.IH"[OF True refl refl, unfolded batch_zip] .
    also have "\<dots> = foldl keep_result acc (map (settle probe) (enumerate i (drop i xs)))"
      by (subst (2) enumerate_split) simp
    finally show ?thesis .
  qed
qed

lemma length_keep_result:
  "length (foldl keep_result acc (map (settle probe) kas))
     = length acc + length (filter (counted probe) kas)"
proof (induction kas arbitrary: acc)
  case Nil
  then show ?case by simp
next
  case (Cons ka kas)
  have "length (keep_result acc (settle probe ka)) = length acc + (if counted probe ka then 1 else 0)"
    by (auto simp: keep_result_def settle_def counted_def testIPSpeed_def
        split: probe_outcome.splits speedData.splits)
  with Cons show ?case by simp
qed

lemma length_speed_batches:
  "length (speed_batches probe (take AUTO_TEST_MAX_IPS addresses) 0 [])
     = length (filter (counted probe) (enumerate 0 (take AUTO_TEST_MAX_IPS addresses)))"
  by (simp add: speed_batches_fold length_keep_result)

lemma counted_succeeds:
  "\<forall>k a st. probe k a \<noteq> Answered st 0 \<Longrightarrow> counted probe = probe_succeeds probe"
  by (auto simp: counted_def probe_succeeds_def fun_eq_iff split: probe_outcome.splits)

lemma sorted_by_latency: "sorted (map latency (js_sort compareLatency xs))"
  by (rule sorted_js_sort) (simp add: compareLatency_def sort_order_def)

text \<open>
  Claim C6, as amended. For every non-empty list of addresses and every outcome of the
  probes in which no answered probe measures 0 milliseconds, when the write to the
  namespace does not fail, the run stores a FastSet of at most \<open>FAST_IP_COUNT = 25\<close>
  entries, sorted non-decreasing by latency, holding exactly as many entries as probes
  succeeded if these are fewer than 25 (none if none succeeded), and its \<open>count\<close> is
  the number of entries.
\<close>

theorem ranking_keeps_fastest:
  assumes ne: "addresses \<noteq> []" and b: "IP_STORAGE w = Some st" and nf: "\<not> next_fault w"
    and ok: "\<bar>clock w (ticks w)\<bar> \<le> 8640000000000000"
    and nz: "\<forall>k a st. probe k a \<noteq> Answered st 0"
  shows "fst (autoSpeedTestAndStore probe addresses w) = Inr ()
       \<and> (\<exists>F. stored_fast (snd (autoSpeedTestAndStore probe addresses w)) = Some F
              \<and> length (fastIPs F) \<le> FAST_IP_COUNT
              \<and> sorted (map latency (fastIPs F))
              \<and> length (fastIPs F) = min FAST_IP_COUNT (successes probe addresses)
              \<and> fast_count F = length (fastIPs F))"
proof -
  let ?rs = "js_sort compareLatency (speed_batches probe (take AUTO_TEST_MAX_IPS addresses) 0 [])"
  let ?F = "\<lparr>fastIPs = take FAST_IP_COUNT ?rs, lastTested = clock w (ticks w),
             fast_count = length (take FAST_IP_COUNT ?rs), testedCount = length ?rs,
             totalIPs = length addresses\<rparr>"
  have run: "autoSpeedTestAndStore probe addresses w
      = (Inr (), w\<lparr>ticks := Suc (ticks w), IP_STORAGE := Some (st\<lparr>cloudflare_fast_ips := Some ?F\<rparr>),
                   faults := tl (faults w)\<rparr>)"
    using ne b nf ok
    by (simp add: autoSpeedTestAndStore_def Let_def bind_io_def now_io_def toISOString_def
        return_io_def put_fast_ips_def kv_op_def next_fault_def require_bound_def)
  have "sorted (map latency (take FAST_IP_COUNT ?rs))"
    using sorted_by_latency[of "speed_batches probe (take AUTO_TEST_MAX_IPS addresses) 0 []"]
    by (simp add: take_map[symmetric] sorted_wrt_take)
  moreover have "length (take FAST_IP_COUNT ?rs) = min FAST_IP_COUNT (successes probe addresses)"
    using counted_succeeds[OF nz]
    by (simp add: length_js_sort length_speed_batches successes_def min.commute)
  ultimately show ?thesis
    by (simp add: run stored_fast_def)
qed

theorem ranking_keeps_fastest_witness:
  "stored_fast (snd (autoSpeedTestAndStore probe0 [''1.1.1.1'', ''2.2.2.2'', ''3.3.3.3'']
       (world0 (Some ''pw'') [] 1000)))
     = Some \<lparr>fastIPs = [\<lparr>ip = ''3.3.3.3'', latency = 20\<rparr>, \<lparr>ip = ''1.1.1.1'', latency = 40\<rparr>],
              lastTested = 1000, fast_count = 2, testedCount = 2, totalIPs = 3\<rparr>
   \<and> successes probe0 [''1.1.1.1'', ''2.2.2.2'', ''3.3.3.3''] = 2"
proof -
  have s: "speed_batches probe0 [''1.1.1.1'', ''2.2.2.2'', ''3.3.3.3''] 0 []
      = [\<lparr>ip = ''1.1.1.1'', latency = 40\<rparr>, \<lparr>ip = ''3.3.3.3'', latency = 20\<rparr>]"
    by (simp add: speed_batches.simps Let_def keep_result_def testIPSpeed_def probe0_def upt_rec)
  have e: "stored_fast (snd (autoSpeedTestAndStore probe0 [''1.1.1.1'', ''2.2.2.2'', ''3.3.3.3'']
       (world0 (Some ''pw'') [] 1000)))
     = Some \<lparr>fastIPs = [\<lparr>ip = ''3.3.3.3'', latency = 20\<rparr>, \<lparr>ip = ''1.1.1.1'', latency = 40\<rparr>],
              lastTested = 1000, fast_count = 2, testedCount = 2, totalIPs = 3\<rparr>"
    by (simp add: autoSpeedTestAndStore_def AUTO_TEST_MAX_IPS_def FAST_IP_COUNT_def s Let_def
        js_sort_def compareLatency_def sort_order_def stored_fast_def put_fast_ips_def
        require_bound_def world0_def eval_defs)
  have nz: "\<forall>k a st. probe0 k a \<noteq> Answered st 0"
    by (simp add: probe0_def)
  have sc: "successes probe0 [''1.1.1.1'', ''2.2.2.2'', ''3.3.3.3''] = 2"
    by (simp add: successes_def probe_succeeds_def probe0_def AUTO_TEST_MAX_IPS_def
        enumerate_eq_zip upt_rec)
  from ranking_keeps_fastest[of "[''1.1.1.1'', ''2.2.2.2'', ''3.3.3.3'']"
      "world0 (Some ''pw'') [] 1000" store0 probe0, OF _ _ _ _ nz] e sc
  show ?thesis
    by (simp add: world0_def next_fault_def)
qed

text \<open>
  Claim C6 as stated fails for the empty list of addresses: the function returns at
  once and stores nothing (the namespace keeps what it held, here no fast list at all).
  Besides, a probe that succeeds with a measured latency of 0 milliseconds is not kept:
  one success, no entry.
\<close>

theorem ranking_empty_input_counterexample:
  "autoSpeedTestAndStore probe0 [] (world0 (Some ''pw'') [] 1000)
     = (Inr (), world0 (Some ''pw'') [] 1000)
   \<and> stored_fast (world0 (Some ''pw'') [] 1000) = None
   \<and> successes (\<lambda>k a. Answered 200 0) [''1.1.1.1''] = 1
   \<and> map_option fastIPs (stored_fast (snd (autoSpeedTestAndStore (\<lambda>k a. Answered 200 0)
        [''1.1.1.1''] (world0 (Some ''pw'') [] 1000)))) = Some []"
  by (simp add: autoSpeedTestAndStore_def return_io_def stored_fast_def world0_def store0_def
      successes_def probe_succeeds_def AUTO_TEST_MAX_IPS_def FAST_IP_COUNT_def enumerate_eq_zip
      speed_batches.simps Let_def keep_result_def testIPSpeed_def js_sort_def put_fast_ips_def
      require_bound_def eval_defs)

end
